theory Spec2Isabelle
  imports Complex_Main "HOL-Library.Multiset"
begin

section \<open>JavaScript values\<close>

text \<open>
  A JavaScript number is an IEEE 754 double. It is modelled as \<open>NaN\<close> or the rational
  value of a double, and every arithmetic operation rounds its exact result to the
  nearest double, the one with the even significand on a tie (\<open>toDouble\<close>): 53 bits of
  significand, subnormals below \<open>2^-1022\<close>. The two zeros are one value, and the
  infinities are not modelled: a result beyond the largest double stays finite. Every
  division of the modelled code is behind a check that its divisor is truthy or positive.
\<close>

datatype jsnum = NaN | Num rat

text \<open>The number of binary digits of a positive integer.\<close>

function bitLength :: "int \<Rightarrow> int" where
  "bitLength n = (if n \<le> 0 then 0 else 1 + bitLength (n div 2))"
  by pat_completeness auto
termination
  by (relation "measure nat") auto

declare bitLength.simps [simp del]

function pow2 :: "int \<Rightarrow> rat" where
  "pow2 e = (if e < 0 then pow2 (e + 1) / 2 else if e = 0 then 1 else 2 * pow2 (e - 1))"
  by pat_completeness auto
termination
  by (relation "measure (\<lambda>e. nat \<bar>e\<bar>)") auto

declare pow2.simps [simp del]

text \<open>The binary exponent of a positive rational \<open>a\<close>: the \<open>k\<close> with
  \<open>2^k \<le> a < 2^(k+1)\<close>.\<close>

definition ilog2 :: "rat \<Rightarrow> int" where
  "ilog2 a = (if 1 \<le> a then bitLength \<lfloor>a\<rfloor> - 1 else - bitLength (\<lceil>1 / a\<rceil> - 1))"

text \<open>Rounding to the nearest integer, to the even one on a tie.\<close>

definition roundEven :: "rat \<Rightarrow> int" where
  "roundEven x =
     (let f = \<lfloor>x\<rfloor>; d = x - of_int f
      in if d < 1 / 2 then f else if 1 / 2 < d then f + 1 else if even f then f else f + 1)"

text \<open>The double nearest to a rational: a multiple of \<open>2^(k - 52)\<close>, where \<open>k\<close> is the
  binary exponent, and of \<open>2^-1074\<close> in the subnormal range.\<close>

definition toDouble :: "rat \<Rightarrow> rat" where
  "toDouble x =
     (if x = 0 then 0
      else (let a = \<bar>x\<bar>; q = pow2 (max (ilog2 a - 52) (- 1074))
            in sgn x * of_int (roundEven (a / q)) * q))"

fun jadd :: "jsnum \<Rightarrow> jsnum \<Rightarrow> jsnum" where
  "jadd (Num a) (Num b) = Num (toDouble (a + b))"
| "jadd _ _ = NaN"

fun jsub :: "jsnum \<Rightarrow> jsnum \<Rightarrow> jsnum" where
  "jsub (Num a) (Num b) = Num (toDouble (a - b))"
| "jsub _ _ = NaN"

fun jmul :: "jsnum \<Rightarrow> jsnum \<Rightarrow> jsnum" where
  "jmul (Num a) (Num b) = Num (toDouble (a * b))"
| "jmul _ _ = NaN"

text \<open>Division; a zero divisor (an infinity or NaN in JavaScript) is mapped to \<open>NaN\<close>.\<close>

fun jdiv :: "jsnum \<Rightarrow> jsnum \<Rightarrow> jsnum" where
  "jdiv (Num a) (Num b) = (if b = 0 then NaN else Num (toDouble (a / b)))"
| "jdiv _ _ = NaN"

text \<open>\<open>Math.min\<close> and \<open>Math.max\<close> return NaN as soon as one argument is NaN; they and
  the comparisons are exact.\<close>

fun jmin :: "jsnum \<Rightarrow> jsnum \<Rightarrow> jsnum" where
  "jmin (Num a) (Num b) = Num (min a b)"
| "jmin _ _ = NaN"

fun jmax :: "jsnum \<Rightarrow> jsnum \<Rightarrow> jsnum" where
  "jmax (Num a) (Num b) = Num (max a b)"
| "jmax _ _ = NaN"

text \<open>Comparisons with NaN are false.\<close>

fun jge :: "jsnum \<Rightarrow> jsnum \<Rightarrow> bool" where
  "jge (Num a) (Num b) = (b \<le> a)"
| "jge _ _ = False"

fun jgt :: "jsnum \<Rightarrow> jsnum \<Rightarrow> bool" where
  "jgt (Num a) (Num b) = (b < a)"
| "jgt _ _ = False"

text \<open>Truthiness: a number is falsy when it is 0 or NaN; a string when it is empty;
  \<open>undefined\<close> (here \<open>None\<close>) always.\<close>

fun truthyNum :: "jsnum \<Rightarrow> bool" where
  "truthyNum NaN = False"
| "truthyNum (Num r) = (r \<noteq> 0)"

fun truthyNumOpt :: "jsnum option \<Rightarrow> bool" where
  "truthyNumOpt None = False"
| "truthyNumOpt (Some n) = truthyNum n"

fun truthyStr :: "string option \<Rightarrow> bool" where
  "truthyStr None = False"
| "truthyStr (Some s) = (s \<noteq> [])"

fun truthyInt :: "int option \<Rightarrow> bool" where
  "truthyInt None = False"
| "truthyInt (Some i) = (i \<noteq> 0)"

text \<open>The nullish coalescing operator \<open>??\<close>.\<close>

fun orElse :: "'a option \<Rightarrow> 'a \<Rightarrow> 'a" where
  "orElse None d = d"
| "orElse (Some v) d = v"

subsection \<open>Strings and decimal numerals\<close>

definition isDigit :: "char \<Rightarrow> bool" where
  "isDigit c = (c \<in> set ''0123456789'')"

text \<open>The ASCII part of the regular-expression class \<open>\s\<close>.\<close>

definition isSpace :: "char \<Rightarrow> bool" where
  "isSpace c = (c \<in> set [CHR '' '', CHR 0x09, CHR 0x0A, CHR 0x0B, CHR 0x0C, CHR 0x0D])"

definition digitVal :: "char \<Rightarrow> nat" where
  "digitVal c = of_char c - 48"

definition digitsVal :: "string \<Rightarrow> nat" where
  "digitsVal s = foldl (\<lambda>acc c. 10 * acc + digitVal c) 0 s"

definition decValue :: "string \<Rightarrow> string \<Rightarrow> rat" where
  "decValue ip fp = of_nat (digitsVal ip) + of_nat (digitsVal fp) / 10 ^ length fp"

text \<open>
  \<open>parseFloat\<close> and the unary \<open>+\<close> (\<open>Number\<close>) on strings made of digits and dots only,
  which is all the progress parser hands them: \<open>parseFloat\<close> reads the longest numeric
  prefix, \<open>Number\<close> wants the whole string to be a numeral and maps the empty string to 0.
  Both give the double nearest to the decimal value.
\<close>

definition parseFloat :: "string \<Rightarrow> jsnum" where
  "parseFloat s =
     (let ip = takeWhile isDigit s;
          r = dropWhile isDigit s;
          fp = (case r of c # t \<Rightarrow> if c = CHR ''.'' then takeWhile isDigit t else [] | [] \<Rightarrow> [])
      in if ip = [] \<and> fp = [] then NaN else Num (toDouble (decValue ip fp)))"

definition toNumber :: "string \<Rightarrow> jsnum" where
  "toNumber s =
     (let ip = takeWhile isDigit s; r = dropWhile isDigit s
      in case r of
           [] \<Rightarrow> Num (toDouble (decValue ip []))
         | c # t \<Rightarrow>
             if c = CHR ''.'' \<and> list_all isDigit t \<and> (ip \<noteq> [] \<or> t \<noteq> [])
             then Num (toDouble (decValue ip t)) else NaN)"

fun parseFloatOpt :: "string option \<Rightarrow> jsnum" where
  "parseFloatOpt None = NaN"
| "parseFloatOpt (Some s) = parseFloat s"

fun toNumberOpt :: "string option \<Rightarrow> jsnum" where
  "toNumberOpt None = NaN"
| "toNumberOpt (Some s) = toNumber s"

fun showNat :: "nat \<Rightarrow> string" where
  "showNat n = (if n < 10 then [''0123456789'' ! n]
                else showNat (n div 10) @ [''0123456789'' ! (n mod 10)])"

declare showNat.simps [simp del]

definition showInt :: "int \<Rightarrow> string" where
  "showInt i = (if i < 0 then CHR ''-'' # showNat (nat (- i)) else showNat (nat i))"

text \<open>\<open>String.prototype.split\<close> on a one-character separator.\<close>

fun splitOn :: "char \<Rightarrow> string \<Rightarrow> string list" where
  "splitOn sep [] = [[]]"
| "splitOn sep (c # cs) =
     (if c = sep then [] # splitOn sep cs
      else (case splitOn sep cs of p # ps \<Rightarrow> (c # p) # ps | [] \<Rightarrow> [[c]]))"

fun nthOpt :: "'a list \<Rightarrow> nat \<Rightarrow> 'a option" where
  "nthOpt [] n = None"
| "nthOpt (x # xs) 0 = Some x"
| "nthOpt (x # xs) (Suc n) = nthOpt xs n"

fun joinWith :: "string \<Rightarrow> string list \<Rightarrow> string" where
  "joinWith sep [] = []"
| "joinWith sep [x] = x"
| "joinWith sep (x # y # ys) = x @ sep @ joinWith sep (y # ys)"

section \<open>Operation specs (types.ts)\<close>

datatype JobType =
  Convert | Compress | Thumbnail | Metadata | ExtractAudio | ReplaceAudio
  | ToGif | Clip | Concat | Watermark | Frames
  | UnknownType string

text \<open>
  \<open>UnknownType\<close> stands for a value outside the TypeScript union, which only the
  \<open>default\<close> branches of the code see. Numeric options are modelled as integers.
\<close>

record JobOptions =
  o_id :: "string option"
  o_type :: JobType
  o_input :: string
  o_output :: "string option"
  o_format :: "string option"
  o_bitrate :: "string option"
  o_time :: "string option"
  o_codec :: "string option"
  o_audio :: "string option"
  o_start :: "int option"
  o_duration :: "int option"
  o_watermark :: "string option"
  o_x :: "int option"
  o_y :: "int option"
  o_fps :: "int option"

datatype JobState = Queued | Running | Done | Error | Cancelled

record ProgressInfo =
  p_percent :: jsnum
  p_frames :: nat
  p_currentFps :: jsnum
  p_currentKbps :: jsnum
  p_time :: "string option"

section \<open>The spawn-based Job (packages/core/src/job.ts)\<close>

datatype JobEvent =
  EvStart string | EvState JobState | EvProgress ProgressInfo
  | EvDone "string option" | EvError string

text \<open>What a call does to the outside, in order: an event emitted to the listeners, a
  process spawned, the process killed, a timer armed.\<close>

datatype action =
  Emit JobEvent | Spawn string "string list" | Kill | SetTimeout int

record Job =
  j_id :: string
  j_opts :: JobOptions
  j_ffmpegPath :: string
  j_proc :: bool
  j_state :: JobState
  j_durationSec :: "jsnum option"

definition withDefaults :: "JobOptions \<Rightarrow> JobOptions" where
  "withDefaults o' = o'\<lparr>
     o_output := Some (orElse (o_output o') ''output.mp4''),
     o_bitrate := Some (orElse (o_bitrate o') ''1000k''),
     o_time := Some (orElse (o_time o') ''00:00:01''),
     o_codec := Some (orElse (o_codec o') ''aac''),
     o_start := Some (orElse (o_start o') 0),
     o_duration := Some (orElse (o_duration o') 5),
     o_fps := Some (orElse (o_fps o') 1),
     o_x := Some (orElse (o_x o') 10),
     o_y := Some (orElse (o_y o') 10)\<rparr>"

text \<open>
  The constructor. \<open>found\<close> is the outcome of \<open>verify\<close> (whether the binary answered
  \<open>-version\<close>); \<open>fresh\<close> is what \<open>newId()\<close> of utils/id returns.
\<close>

definition newJob :: "bool \<Rightarrow> string \<Rightarrow> JobOptions \<Rightarrow> string \<Rightarrow> string + Job" where
  "newJob found fresh opts ffmpegPath =
     (if \<not> found then Inl (''ffmpeg not found at \"'' @ ffmpegPath @ ''\"'')
      else Inr \<lparr> j_id = orElse (o_id opts) fresh,
                 j_opts = withDefaults opts,
                 j_ffmpegPath = ffmpegPath,
                 j_proc = False,
                 j_state = Queued,
                 j_durationSec = None \<rparr>)"

text \<open>A non-null assertion \<open>o.field!\<close> on a string: the value when there is one; an
  \<open>undefined\<close> would reach the argument list as it is, written \<open>''undefined''\<close> here.\<close>

fun bang :: "string option \<Rightarrow> string" where
  "bang None = ''undefined''"
| "bang (Some s) = s"

fun bangInt :: "int option \<Rightarrow> string" where
  "bangInt None = ''undefined''"
| "bangInt (Some i) = showInt i"

definition buildArgs :: "JobOptions \<Rightarrow> string + string list" where
  "buildArgs o' =
    (case o_type o' of
       Convert \<Rightarrow>
         if \<not> truthyStr (o_output o') then Inl ''convert: missing output''
         else Inr [''-i'', o_input o', ''-y'', bang (o_output o')]
     | Compress \<Rightarrow>
         if \<not> truthyStr (o_output o') then Inl ''compress: missing output''
         else Inr [''-i'', o_input o', ''-b:v'', bang (o_bitrate o'), ''-y'', bang (o_output o')]
     | Thumbnail \<Rightarrow>
         if \<not> truthyStr (o_output o') then Inl ''thumbnail: missing output''
         else Inr [''-ss'', bang (o_time o'), ''-i'', o_input o', ''-vframes'', ''1'', ''-y'',
                   bang (o_output o')]
     | Metadata \<Rightarrow> Inr [''-i'', o_input o', ''-f'', ''ffmetadata'', ''-'']
     | ExtractAudio \<Rightarrow>
         if \<not> truthyStr (o_output o') then Inl ''extractAudio: missing output''
         else Inr [''-i'', o_input o', ''-vn'', ''-acodec'', bang (o_codec o'), ''-y'',
                   bang (o_output o')]
     | ReplaceAudio \<Rightarrow>
         if \<not> truthyStr (o_audio o') \<or> \<not> truthyStr (o_output o')
         then Inl ''replaceAudio: missing audio/output''
         else Inr [''-i'', o_input o', ''-i'', bang (o_audio o'), ''-c:v'', ''copy'',
                   ''-map'', ''0:v:0'', ''-map'', ''1:a:0'', ''-y'', bang (o_output o')]
     | ToGif \<Rightarrow>
         if \<not> truthyStr (o_output o') then Inl ''toGif: missing output''
         else Inr [''-ss'', bangInt (o_start o'), ''-t'', bangInt (o_duration o'),
                   ''-i'', o_input o', ''-vf'', ''fps=10,scale=320:-1:flags=lanczos'', ''-y'',
                   bang (o_output o')]
     | Clip \<Rightarrow>
         if \<not> truthyStr (o_output o') then Inl ''clip: missing output''
         else Inr [''-ss'', bangInt (o_start o'), ''-t'', bangInt (o_duration o'),
                   ''-i'', o_input o', ''-c'', ''copy'', ''-y'', bang (o_output o')]
     | Concat \<Rightarrow>
         if \<not> truthyStr (o_output o') then Inl ''concat: missing output''
         else Inr [''-i'', ''concat:'' @ o_input o', ''-c'', ''copy'', ''-y'', bang (o_output o')]
     | Watermark \<Rightarrow>
         if \<not> truthyStr (o_watermark o') \<or> \<not> truthyStr (o_output o')
         then Inl ''watermark: missing watermark/output''
         else Inr [''-i'', o_input o', ''-i'', bang (o_watermark o'), ''-filter_complex'',
                   ''overlay='' @ bangInt (o_x o') @ '':'' @ bangInt (o_y o'), ''-y'',
                   bang (o_output o')]
     | Frames \<Rightarrow>
         if \<not> truthyStr (o_output o') then Inl ''frames: missing output pattern''
         else Inr ([''-i'', o_input o']
                   @ (if truthyInt (o_fps o') then [''-vf'', ''fps='' @ bangInt (o_fps o')] else [])
                   @ [''-y'', bang (o_output o')])
     | UnknownType t \<Rightarrow> Inl (''Unknown job type: '' @ t))"

definition setState :: "JobState \<Rightarrow> Job \<Rightarrow> action list \<times> Job" where
  "setState s j = ([Emit (EvState s)], j\<lparr>j_state := s\<rparr>)"

definition fail :: "string \<Rightarrow> Job \<Rightarrow> action list \<times> Job" where
  "fail err j = (let (a, j') = setState Error j in (a @ [Emit (EvError err)], j'))"

text \<open>
  \<open>start\<close> returns what it did, the job afterwards, and the exception it threw if any.
  \<open>buildArgs\<close> runs first, so its exception leaves the job untouched. Node's \<open>spawn\<close>
  reports a launch failure through the process's error event (\<open>procError\<close> below), so
  \<open>safeSpawn\<close> is taken to return a process.
\<close>

definition start :: "int option \<Rightarrow> Job \<Rightarrow> action list \<times> Job \<times> string option" where
  "start timeoutMs j =
     (case buildArgs (j_opts j) of
        Inl err \<Rightarrow> ([], j, Some err)
      | Inr args \<Rightarrow>
          (let a1 = [Emit (EvStart (j_ffmpegPath j @ '' '' @ joinWith '' '' args))];
               (a2, j2) = setState Running j;
               a3 = [Spawn (j_ffmpegPath j) args];
               j3 = j2\<lparr>j_proc := True\<rparr>;
               a4 = (if truthyInt timeoutMs then [SetTimeout (orElse timeoutMs 0)] else [])
           in (a1 @ a2 @ a3 @ a4, j3, None)))"

definition cancel :: "string \<Rightarrow> Job \<Rightarrow> action list \<times> Job" where
  "cancel reason j =
     (if j_proc j \<and> j_state j = Running
      then (let (a, j') = setState Cancelled j
            in ([Kill] @ a @ [Emit (EvError (''Job '' @ reason))], j'))
      else ([], j))"

text \<open>The handler of the process's error event; \<open>enoent\<close> says whether the error's code
  is ENOENT, \<open>msg\<close> is the error's message otherwise.\<close>

definition procError :: "bool \<Rightarrow> string \<Rightarrow> Job \<Rightarrow> action list \<times> Job" where
  "procError enoent msg j = (if enoent then fail ''ffmpeg missing'' j else fail msg j)"

text \<open>The handler of the process's close event; the exit code is \<open>null\<close> (\<open>None\<close>) when
  a signal ended the process.\<close>

fun showCode :: "int option \<Rightarrow> string" where
  "showCode None = ''null''"
| "showCode (Some c) = showInt c"

definition procClose :: "int option \<Rightarrow> Job \<Rightarrow> action list \<times> Job" where
  "procClose code j =
     (if code = Some 0
      then (let (a, j') = setState Done j in (a @ [Emit (EvDone (o_output (j_opts j)))], j'))
      else if j_state j \<noteq> Cancelled
      then fail (''ffmpeg exited with code '' @ showCode code) j
      else ([], j))"

subsection \<open>Progress parsing\<close>

fun stripPrefix :: "string \<Rightarrow> string \<Rightarrow> string option" where
  "stripPrefix [] s = Some s"
| "stripPrefix (p # ps) [] = None"
| "stripPrefix (p # ps) (c # cs) = (if p = c then stripPrefix ps cs else None)"

text \<open>
  The four patterns all have the shape \<open>literal \s* (class+) literal\<close>. A match at the
  head of \<open>s\<close>: the class is disjoint from white space and from the first character of
  the closing literal, so the greedy match never backtracks.
\<close>

definition matchAt :: "string \<Rightarrow> (char \<Rightarrow> bool) \<Rightarrow> string \<Rightarrow> string \<Rightarrow> string option" where
  "matchAt pre cls post s =
     (case stripPrefix pre s of
        None \<Rightarrow> None
      | Some r \<Rightarrow>
          (let r' = dropWhile isSpace r; cap = takeWhile cls r'; rest = dropWhile cls r'
           in if cap \<noteq> [] \<and> stripPrefix post rest \<noteq> None then Some cap else None))"

text \<open>\<open>RegExp.prototype.exec(line)?.[1]\<close>: the capture of the leftmost match.\<close>

fun regexExec :: "string \<Rightarrow> (char \<Rightarrow> bool) \<Rightarrow> string \<Rightarrow> string \<Rightarrow> string option" where
  "regexExec pre cls post [] = matchAt pre cls post []"
| "regexExec pre cls post (c # cs) =
     (case matchAt pre cls post (c # cs) of
        Some cap \<Rightarrow> Some cap
      | None \<Rightarrow> regexExec pre cls post cs)"

definition isDigitDot :: "char \<Rightarrow> bool" where
  "isDigitDot c = (isDigit c \<or> c = CHR ''.'')"

definition isTimeChar :: "char \<Rightarrow> bool" where
  "isTimeChar c = (isDigit c \<or> c = CHR '':'' \<or> c = CHR ''.'')"

definition parseProgress :: "Job \<Rightarrow> string \<Rightarrow> ProgressInfo option" where
  "parseProgress j line =
     (let frame = regexExec ''frame='' isDigit [] line;
          fps = regexExec ''fps='' isDigitDot [] line;
          kbps = regexExec ''bitrate='' isDigitDot ''kbits/s'' line;
          time = regexExec ''time='' isTimeChar [] line
      in if \<not> truthyStr frame \<and> \<not> truthyStr fps \<and> \<not> truthyStr kbps \<and> \<not> truthyStr time
         then None
         else
           (let percent =
                  (if truthyNumOpt (j_durationSec j) \<and> truthyStr time
                   then (let parts = splitOn CHR '':'' (bang time);
                             hh = nthOpt parts 0; mm = nthOpt parts 1; ss = nthOpt parts 2;
                             cur = jadd (jadd (jmul (toNumberOpt hh) (Num 3600))
                                              (jmul (toNumberOpt mm) (Num 60)))
                                        (parseFloatOpt ss)
                         in jmax (Num 0)
                              (jmin (Num 100)
                                 (jmul (jdiv cur (orElse (j_durationSec j) NaN)) (Num 100))))
                   else Num 0)
            in Some \<lparr> p_percent = percent,
                      p_frames = (case frame of Some f \<Rightarrow> digitsVal f | None \<Rightarrow> 0),
                      p_currentFps = (case fps of Some f \<Rightarrow> parseFloat f | None \<Rightarrow> Num 0),
                      p_currentKbps = (case kbps of Some k \<Rightarrow> parseFloat k | None \<Rightarrow> Num 0),
                      p_time = time \<rparr>))"

text \<open>The handler of the diagnostic stream: one call per chunk of text.\<close>

definition procStderr :: "string \<Rightarrow> Job \<Rightarrow> action list \<times> Job" where
  "procStderr buf j =
     (case parseProgress j buf of
        None \<Rightarrow> ([], j)
      | Some info \<Rightarrow> ([Emit (EvProgress info)], j))"

subsection \<open>A job's life as a sequence of calls and process events\<close>

datatype JobInput =
  CallStart "int option" | CallCancel string
  | ProcError bool string | ProcStderr string | ProcClose "int option"

text \<open>The process handlers are installed by \<open>start\<close>, so a process event reaches the job
  only once a process exists. An exception of \<open>start\<close> ends the call and nothing else.\<close>

fun jobStep :: "JobInput \<Rightarrow> Job \<Rightarrow> action list \<times> Job" where
  "jobStep (CallStart t) j = (case start t j of (a, j', _) \<Rightarrow> (a, j'))"
| "jobStep (CallCancel reason) j = cancel reason j"
| "jobStep (ProcError enoent msg) j = (if j_proc j then procError enoent msg j else ([], j))"
| "jobStep (ProcStderr buf) j = (if j_proc j then procStderr buf j else ([], j))"
| "jobStep (ProcClose code) j = (if j_proc j then procClose code j else ([], j))"

fun jobRun :: "JobInput list \<Rightarrow> Job \<Rightarrow> action list \<times> Job" where
  "jobRun [] j = ([], j)"
| "jobRun (i # is) j =
     (case jobStep i j of (a, j') \<Rightarrow> (case jobRun is j' of (b, j'') \<Rightarrow> (a @ b, j'')))"

text \<open>A kind that writes an output file: every kind of the union but \<open>metadata\<close>.\<close>

fun requiresOutput :: "JobType \<Rightarrow> bool" where
  "requiresOutput Metadata = False"
| "requiresOutput (UnknownType t) = False"
| "requiresOutput _ = True"

definition emptyOptions :: "JobType \<Rightarrow> string \<Rightarrow> JobOptions" where
  "emptyOptions ty inp =
     \<lparr> o_id = None, o_type = ty, o_input = inp, o_output = None, o_format = None,
       o_bitrate = None, o_time = None, o_codec = None, o_audio = None, o_start = None,
       o_duration = None, o_watermark = None, o_x = None, o_y = None, o_fps = None \<rparr>"

subsection \<open>Sample jobs\<close>

definition auxInputsPresent :: "JobOptions \<Rightarrow> bool" where
  "auxInputsPresent o' =
     ((o_type o' = ReplaceAudio \<longrightarrow> truthyStr (o_audio o'))
      \<and> (o_type o' = Watermark \<longrightarrow> truthyStr (o_watermark o')))"

definition convertNoOutput :: JobOptions where
  "convertNoOutput = emptyOptions Convert ''in.mp4''"

definition convertEmptyOutput :: JobOptions where
  "convertEmptyOutput = (emptyOptions Convert ''in.mp4'')\<lparr>o_output := Some []\<rparr>"

definition freshJob :: Job where
  "freshJob = \<lparr> j_id = ''job-1'', j_opts = withDefaults (emptyOptions Convert ''in.mp4''),
     j_ffmpegPath = ''ffmpeg'', j_proc = False, j_state = Queued, j_durationSec = None \<rparr>"

definition emptyOutputJob :: Job where
  "emptyOutputJob = \<lparr> j_id = ''job-2'', j_opts = withDefaults convertEmptyOutput,
     j_ffmpegPath = ''ffmpeg'', j_proc = False, j_state = Queued, j_durationSec = None \<rparr>"

definition doneJob :: Job where
  "doneJob = \<lparr> j_id = ''job-1'', j_opts = withDefaults (emptyOptions Convert ''in.mp4''),
     j_ffmpegPath = ''ffmpeg'', j_proc = True, j_state = Done, j_durationSec = None \<rparr>"

definition sampleProgress :: ProgressInfo where
  "sampleProgress = \<lparr> p_percent = Num 0, p_frames = 240, p_currentFps = Num 30,
     p_currentKbps = Num 0, p_time = Some ''00:00:08.00'' \<rparr>"

section \<open>The fluent-ffmpeg Job (unnamed part_000, second version)\<close>

text \<open>
  The progress objects of fluent-ffmpeg carry a \<open>timemark\<close>. Their time strings are not
  under the control of this code, so the builtins \<open>Number\<close> and \<open>parseFloat\<close> on arbitrary
  strings are parameters of the model.
\<close>

record Builtins =
  js_Number :: "string \<Rightarrow> jsnum"
  js_parseFloat :: "string \<Rightarrow> jsnum"

record RawProgress = ProgressInfo +
  p_timemark :: "string option"

definition isNaN :: "jsnum option \<Rightarrow> bool" where
  "isNaN v = (case v of None \<Rightarrow> True | Some NaN \<Rightarrow> True | Some (Num r) \<Rightarrow> False)"

text \<open>\<open>parseTimeToSeconds\<close> of the job: the first three parts of the split, 0 when one
  of them is missing or not a number.\<close>

definition parseTimeToSecondsJob :: "Builtins \<Rightarrow> string \<Rightarrow> jsnum" where
  "parseTimeToSecondsJob B time' =
     (let parts = map (js_Number B) (splitOn CHR '':'' time');
          h = nthOpt parts 0; m = nthOpt parts 1; s = nthOpt parts 2
      in if isNaN h \<or> isNaN m \<or> isNaN s then Num 0
         else jadd (jadd (jmul (orElse h NaN) (Num 3600)) (jmul (orElse m NaN) (Num 60)))
                   (orElse s NaN))"

text \<open>
  \<open>Number(x.toFixed(2))\<close>. \<open>toFixed\<close> writes the decimal numeral with two fraction digits
  nearest to the exact value of the double, the one larger in magnitude on a tie, and
  the numeral of \<open>String(x)\<close> from \<open>10^21\<close> on; \<open>Number\<close> reads it back as the nearest
  double.
\<close>

fun toFixed2 :: "jsnum \<Rightarrow> jsnum" where
  "toFixed2 NaN = NaN"
| "toFixed2 (Num r) =
     (if 10 ^ 21 \<le> \<bar>r\<bar> then Num r
      else Num (toDouble (sgn r * of_int \<lfloor>\<bar>r\<bar> * 100 + 1 / 2\<rfloor> / 100)))"

definition jobCurrentPercent :: "Builtins \<Rightarrow> jsnum \<Rightarrow> string \<Rightarrow> jsnum" where
  "jobCurrentPercent B durationSeconds timemark =
     jmin (jmul (jdiv (parseTimeToSecondsJob B timemark) durationSeconds) (Num 100)) (Num 100)"

text \<open>The progress handler installed by \<open>start\<close>: it takes the progress object and the
  local \<open>lastPercent\<close>, and returns the samples emitted and the new \<open>lastPercent\<close>.\<close>

definition fjobOnProgress ::
  "Builtins \<Rightarrow> jsnum \<Rightarrow> RawProgress \<Rightarrow> jsnum \<Rightarrow> RawProgress list \<times> jsnum" where
  "fjobOnProgress B durationSeconds progress lastPercent =
     (if \<not> truthyNum durationSeconds \<or> \<not> truthyStr (p_timemark progress) then ([], lastPercent)
      else (let currentPercent = jobCurrentPercent B durationSeconds (bang (p_timemark progress))
            in if jge (jsub currentPercent lastPercent) (Num 1)
               then ([progress\<lparr>p_percent := toFixed2 currentPercent\<rparr>], currentPercent)
               else ([], lastPercent)))"

text \<open>One run of the job: \<open>lastPercent\<close> starts at 0 and the handler sees the progress
  objects in order.\<close>

fun fjobProgressFrom ::
  "Builtins \<Rightarrow> jsnum \<Rightarrow> jsnum \<Rightarrow> RawProgress list \<Rightarrow> RawProgress list" where
  "fjobProgressFrom B d lastPercent [] = []"
| "fjobProgressFrom B d lastPercent (p # ps) =
     (case fjobOnProgress B d p lastPercent of
        (out, lastPercent') \<Rightarrow> out @ fjobProgressFrom B d lastPercent' ps)"

definition fjobProgressRun :: "Builtins \<Rightarrow> jsnum \<Rightarrow> RawProgress list \<Rightarrow> RawProgress list" where
  "fjobProgressRun B d ps = fjobProgressFrom B d (Num 0) ps"

text \<open>
  Follows the spec's words: of the progress objects of a run, a sample is emitted only
  when the duration is available (and the object has a timemark to compute a percent
  from) and the computed percent is a number at least one whole point above \<open>lastPct\<close>, the
  percent computed at the last emission; the sample reports that percent rounded to two
  digits. The comparison is the exact one of the rationals.
\<close>

fun throttleSpec :: "Builtins \<Rightarrow> jsnum \<Rightarrow> rat \<Rightarrow> RawProgress list \<Rightarrow> RawProgress list" where
  "throttleSpec B d lastPct [] = []"
| "throttleSpec B d lastPct (p # ps) =
     (if truthyNum d \<and> truthyStr (p_timemark p)
      then (case jobCurrentPercent B d (bang (p_timemark p)) of
              NaN \<Rightarrow> throttleSpec B d lastPct ps
            | Num c \<Rightarrow>
                if lastPct + 1 \<le> c
                then p\<lparr>p_percent := toFixed2 (Num c)\<rparr> # throttleSpec B d c ps
                else throttleSpec B d lastPct ps)
      else throttleSpec B d lastPct ps)"

subsection \<open>Sample progress streams\<close>

definition frameOnly :: ProgressInfo where
  "frameOnly = \<lparr> p_percent = Num 0, p_frames = 1, p_currentFps = Num 0,
     p_currentKbps = Num 0, p_time = None \<rparr>"

definition builtinsDec :: Builtins where
  "builtinsDec = \<lparr> js_Number = toNumber, js_parseFloat = parseFloat \<rparr>"

definition timemarkOnly :: "string \<Rightarrow> RawProgress" where
  "timemarkOnly t = \<lparr> p_percent = Num 0, p_frames = 0, p_currentFps = Num 0,
      p_currentKbps = Num 0, p_time = None, p_timemark = Some t \<rparr>"

definition sampleTimemarks :: "RawProgress list" where
  "sampleTimemarks = [timemarkOnly ''00:00:01.00'', timemarkOnly ''00:00:02.00'',
                      timemarkOnly ''00:00:03.00'', timemarkOnly ''00:00:05.01'']"

section \<open>The Pipeline (unnamed part_001) and its errors (part_003)\<close>

record MediaXError =
  e_name :: string
  e_message :: string
  e_code :: string
  e_jobType :: "JobType option"
  e_exitCode :: "nat option"
  e_stderr :: "string option"

definition mkMediaXError :: "string \<Rightarrow> string \<Rightarrow> JobType option \<Rightarrow> MediaXError" where
  "mkMediaXError message code jobType =
     \<lparr> e_name = ''MediaXError'', e_message = message, e_code = code, e_jobType = jobType,
       e_exitCode = None, e_stderr = None \<rparr>"

definition mkValidationError :: "string \<Rightarrow> JobType option \<Rightarrow> MediaXError" where
  "mkValidationError message jobType =
     (mkMediaXError message ''VALIDATION_ERROR'' jobType)\<lparr>e_name := ''MediaXValidationError''\<rparr>"

definition mkFFmpegError ::
  "string \<Rightarrow> nat option \<Rightarrow> string option \<Rightarrow> JobType option \<Rightarrow> MediaXError" where
  "mkFFmpegError message exitCode stderr jobType =
     (mkMediaXError message ''FFMPEG_ERROR'' jobType)
       \<lparr>e_name := ''MediaXFFmpegError'', e_exitCode := exitCode, e_stderr := stderr\<rparr>"

text \<open>A thrown value: a plain \<open>Error\<close> with its message, or an instance of MediaXError.\<close>

datatype JsError = PlainError string | MxError MediaXError

datatype PipelineEvent =
  PProgress jsnum nat nat "jsnum option"
  | PDone
  | PError MediaXError int
  | PJobStart JobType nat
  | PJobComplete JobType nat string
  | PWarning string "JobType option"
  | CreateJob JobOptions

text \<open>\<open>CreateJob\<close> is not an event of the emitter: it records the step handed to
  \<open>mediaXInstance.createJob\<close>, that is, the job a step runs.\<close>

record Pipeline =
  pl_steps :: "JobOptions list"
  pl_initialInput :: string
  pl_isRunning :: bool
  pl_aborted :: bool

definition VIDEO_OPERATIONS :: "JobType set" where
  "VIDEO_OPERATIONS = {Convert, Compress, Clip, Watermark, ToGif, ReplaceAudio}"

definition AUDIO_OPERATIONS :: "JobType set" where
  "AUDIO_OPERATIONS = {ExtractAudio}"

definition VIDEO_REQUIRED_OPERATIONS :: "JobType set" where
  "VIDEO_REQUIRED_OPERATIONS = {Thumbnail, Watermark, ToGif, Clip, Convert, Compress}"

fun typeName :: "JobType \<Rightarrow> string" where
  "typeName Convert = ''convert''"
| "typeName Compress = ''compress''"
| "typeName Thumbnail = ''thumbnail''"
| "typeName Metadata = ''metadata''"
| "typeName ExtractAudio = ''extractAudio''"
| "typeName ReplaceAudio = ''replaceAudio''"
| "typeName ToGif = ''toGif''"
| "typeName Clip = ''clip''"
| "typeName Concat = ''concat''"
| "typeName Watermark = ''watermark''"
| "typeName Frames = ''frames''"
| "typeName (UnknownType t) = t"

subsection \<open>Error classification\<close>

definition toLowerChar :: "char \<Rightarrow> char" where
  "toLowerChar c =
     (if 65 \<le> (of_char c :: nat) \<and> (of_char c :: nat) \<le> 90 then char_of (of_char c + 32 :: nat)
      else c)"

definition toLowerCase :: "string \<Rightarrow> string" where
  "toLowerCase s = map toLowerChar s"

fun includesStr :: "string \<Rightarrow> string \<Rightarrow> bool" where
  "includesStr [] sub = (sub = [])"
| "includesStr (c # cs) sub = (stripPrefix sub (c # cs) \<noteq> None \<or> includesStr cs sub)"

text \<open>\<open>message.match(/exited with code (\d+)/)\<close>, the capture read by \<open>parseInt\<close>.\<close>

fun extractExitCode :: "string \<Rightarrow> nat option" where
  "extractExitCode [] = None"
| "extractExitCode (c # cs) =
     (case stripPrefix ''exited with code '' (c # cs) of
        Some r \<Rightarrow> (if takeWhile isDigit r \<noteq> [] then Some (digitsVal (takeWhile isDigit r))
                   else extractExitCode cs)
      | None \<Rightarrow> extractExitCode cs)"

definition enhanceError :: "JsError \<Rightarrow> int \<Rightarrow> MediaXError" where
  "enhanceError err jobIndex =
     (case err of
        MxError e \<Rightarrow> e
      | PlainError m \<Rightarrow>
          (let message = toLowerCase m
           in if includesStr message ''no such file'' \<or> includesStr message ''not found''
              then mkMediaXError ''Input file not found - check file path'' ''FILE_NOT_FOUND'' None
              else if includesStr message ''permission denied''
              then mkMediaXError ''Permission denied - check file permissions''
                     ''PERMISSION_DENIED'' None
              else mkMediaXError (''Pipeline error: '' @ m) ''PIPELINE_ERROR'' None))"

definition enhanceJobError :: "JsError \<Rightarrow> JobType \<Rightarrow> nat \<Rightarrow> MediaXError" where
  "enhanceJobError err jobType jobIndex =
     (case err of
        MxError e \<Rightarrow> e
      | PlainError m \<Rightarrow>
          (let message = toLowerCase m
           in if includesStr message ''does not contain any stream''
              then mkMediaXError
                     (''No compatible streams found for '' @ typeName jobType @ '' operation'')
                     ''NO_STREAMS'' (Some jobType)
              else if includesStr message ''invalid data''
              then mkMediaXError ''Corrupted or invalid media file'' ''INVALID_MEDIA''
                     (Some jobType)
              else if includesStr message ''conversion failed''
              then mkMediaXError
                     (typeName jobType @ '' operation failed - check codec compatibility'')
                     ''CONVERSION_FAILED'' (Some jobType)
              else if includesStr message ''ffmpeg exited with code''
              then mkFFmpegError (typeName jobType @ '' operation failed'')
                     (extractExitCode message) (Some message) (Some jobType)
              else mkMediaXError
                     (''Job '' @ showNat jobIndex @ '' ('' @ typeName jobType @ '') failed: '' @ m)
                     ''JOB_FAILED'' (Some jobType)))"

subsection \<open>Input resolution, default outputs, timeouts\<close>

text \<open>
  The backward search of \<open>resolveJobInput\<close>: the loop variable \<open>j\<close> runs from
  \<open>index - 1\<close> down to 0; the argument here is \<open>j + 1\<close>. Reading the type of a step
  that does not exist is a TypeError.
\<close>

fun resolveLoop :: "JobOptions list \<Rightarrow> string \<Rightarrow> nat \<Rightarrow> string + string" where
  "resolveLoop steps initialInput 0 = Inr initialInput"
| "resolveLoop steps initialInput (Suc j) =
     (case nthOpt steps j of
        None \<Rightarrow> Inl ''Cannot read properties of undefined (reading 'type')''
      | Some prevStep \<Rightarrow>
          if o_type prevStep \<in> VIDEO_OPERATIONS then Inr (bang (o_output prevStep))
          else resolveLoop steps initialInput j)"

definition resolveJobInput ::
  "Pipeline \<Rightarrow> JobOptions \<Rightarrow> nat \<Rightarrow> string \<Rightarrow> string + string" where
  "resolveJobInput pl step index lastOutput =
     (if o_type step \<in> VIDEO_REQUIRED_OPERATIONS \<and> o_type step = Thumbnail
      then resolveLoop (pl_steps pl) (pl_initialInput pl) index
      else Inr lastOutput)"

definition generateDefaultOutput :: "JobType \<Rightarrow> nat \<Rightarrow> nat \<Rightarrow> string" where
  "generateDefaultOutput ty index timestamp =
     (let sfx = ''_'' @ showNat index @ ''_'' @ showNat timestamp
      in case ty of
           Convert \<Rightarrow> ''output'' @ sfx @ ''.mp4''
         | Compress \<Rightarrow> ''compressed'' @ sfx @ ''.mp4''
         | ReplaceAudio \<Rightarrow> ''replaced'' @ sfx @ ''.mp4''
         | ToGif \<Rightarrow> ''animation'' @ sfx @ ''.gif''
         | Clip \<Rightarrow> ''clip'' @ sfx @ ''.mp4''
         | Concat \<Rightarrow> ''concatenated'' @ sfx @ ''.mp4''
         | Watermark \<Rightarrow> ''watermarked'' @ sfx @ ''.mp4''
         | ExtractAudio \<Rightarrow> ''audio'' @ sfx @ ''.aac''
         | Thumbnail \<Rightarrow> ''thumb'' @ sfx @ ''.png''
         | Frames \<Rightarrow> ''frame_%04d'' @ sfx @ ''.png''
         | Metadata \<Rightarrow> ''metadata'' @ sfx @ ''.json''
         | UnknownType t \<Rightarrow> ''output'' @ sfx)"

definition getJobTimeout :: "JobType \<Rightarrow> nat" where
  "getJobTimeout jobType =
     (case jobType of
        Convert \<Rightarrow> 15 * 60 * 1000
      | Compress \<Rightarrow> 20 * 60 * 1000
      | Thumbnail \<Rightarrow> 2 * 60 * 1000
      | ExtractAudio \<Rightarrow> 5 * 60 * 1000
      | ReplaceAudio \<Rightarrow> 10 * 60 * 1000
      | ToGif \<Rightarrow> 10 * 60 * 1000
      | Clip \<Rightarrow> 5 * 60 * 1000
      | Concat \<Rightarrow> 15 * 60 * 1000
      | Watermark \<Rightarrow> 10 * 60 * 1000
      | Frames \<Rightarrow> 20 * 60 * 1000
      | Metadata \<Rightarrow> 30 * 1000
      | UnknownType t \<Rightarrow> 10 * 60 * 1000)"

text \<open>The number \<open>timeoutDuration / 60000\<close> as the message shows it, for the values of
  the table (whole minutes, and half a minute for metadata).\<close>

definition showMinutes :: "nat \<Rightarrow> string" where
  "showMinutes ms = (if ms mod 60000 = 0 then showNat (ms div 60000)
                     else showNat (ms div 60000) @ ''.5'')"

subsection \<open>Workflow progress\<close>

text \<open>\<open>parseTimeToSeconds\<close> of the pipeline file.\<close>

definition parseTimeToSeconds :: "Builtins \<Rightarrow> string option \<Rightarrow> jsnum" where
  "parseTimeToSeconds B time' =
     (if \<not> truthyStr time' then Num 0
      else (let parts = splitOn CHR '':'' (bang time')
            in if length parts = 3
               then jadd (jadd (jmul (js_Number B (parts ! 0)) (Num 3600))
                               (jmul (js_Number B (parts ! 1)) (Num 60)))
                         (js_Number B (parts ! 2))
               else (let v = js_parseFloat B (bang time') in if truthyNum v then v else Num 0)))"

definition stepPercent :: "Builtins \<Rightarrow> RawProgress \<Rightarrow> jsnum \<Rightarrow> jsnum" where
  "stepPercent B p duration =
     jmin (jmul (jdiv (parseTimeToSeconds B (p_timemark p)) duration) (Num 100)) (Num 100)"

text \<open>
  \<open>handleJobProgress\<close>: \<open>duration\<close> is what \<open>job.getDuration()\<close> returns, \<open>now\<close> what
  \<open>Date.now()\<close> returns (milliseconds, like \<open>jobStartTime\<close>). The result is the list of
  events emitted.
\<close>

definition handleJobProgress ::
  "Builtins \<Rightarrow> RawProgress \<Rightarrow> jsnum \<Rightarrow> nat \<Rightarrow> nat \<Rightarrow> int \<Rightarrow> int \<Rightarrow> jsnum \<Rightarrow> PipelineEvent list"
  where
  "handleJobProgress B p duration index totalJobs jobStartTime now lastPercent =
     (if \<not> truthyNum duration \<or> \<not> truthyStr (p_timemark p) then []
      else (let currentPercent = stepPercent B p duration
            in if jge (jsub currentPercent lastPercent) (Num 1)
               then (let elapsed = jdiv (jsub (Num (of_int now)) (Num (of_int jobStartTime)))
                                        (Num 1000);
                         eta = (if jgt currentPercent (Num 0)
                                then Some (jsub (jdiv elapsed (jdiv currentPercent (Num 100)))
                                                elapsed)
                                else None);
                         overallPercent =
                           jmul (jdiv (jadd (Num (of_nat index)) (jdiv currentPercent (Num 100)))
                                      (Num (of_nat totalJobs)))
                                (Num 100)
                     in [PProgress overallPercent (index + 1) totalJobs eta])
               else []))"

subsection \<open>Running the steps\<close>

text \<open>
  What happens while the job of one step runs is an input of the model: the value of
  \<open>Date.now()\<close> when a default output is generated and when the job is created, the
  duration the job reports, the progress events of the job and the calls of \<open>abort\<close>
  and of \<open>run\<close> in the order they occur, and how the job ends. The other public methods
  throw when the workflow runs and leave it as it is. The job is what
  \<open>mediaXInstance.createJob\<close> returns, a fluent-ffmpeg Job, whose \<open>start\<close> never throws
  into the caller; its progress events are taken as they come, whichever the job lets
  through. The array \<open>jobs\<close> and \<open>cleanup\<close>, which removes the listeners of the jobs
  after a timeout, hold nothing a step depends on and are left out, as are the builder
  methods, which check their arguments and call \<open>addStep\<close>.
\<close>

datatype StepEvent = SProgress RawProgress int | SAbort | SRun "string option"

datatype StepEnd = EndDone "string option" | EndError JsError | EndTimeout

record StepEnv =
  se_timestamp :: nat
  se_startTime :: int
  se_duration :: jsnum
  se_events :: "StepEvent list"
  se_end :: StepEnd

definition abort :: "Pipeline \<Rightarrow> PipelineEvent list \<times> Pipeline" where
  "abort pl =
     (if \<not> pl_isRunning pl then ([], pl)
      else ([PError (mkMediaXError ''Pipeline aborted by user'' ''PIPELINE_ABORTED'' None) (- 1)],
            pl\<lparr>pl_aborted := True\<rparr>))"

text \<open>
  A call of \<open>run(input)\<close> while the steps run: \<open>run\<close> assigns \<open>initialInput\<close> when
  \<open>input\<close> is truthy, then finds \<open>isRunning\<close> true, reports that and returns.
\<close>

definition runAgain :: "string option \<Rightarrow> Pipeline \<Rightarrow> PipelineEvent list \<times> Pipeline" where
  "runAgain input pl =
     (let pl0 = (if truthyStr input then pl\<lparr>pl_initialInput := bang input\<rparr> else pl)
      in ([PError (mkMediaXError ''Pipeline is already running'' ''PIPELINE_RUNNING'' None) 0],
          pl0))"

text \<open>The progress listener of \<open>executeJob\<close> always passes the local \<open>lastPercent\<close>, which
  is 0 and never assigned.\<close>

fun jobEvents ::
  "Builtins \<Rightarrow> StepEnv \<Rightarrow> nat \<Rightarrow> nat \<Rightarrow> StepEvent list \<Rightarrow> Pipeline
   \<Rightarrow> PipelineEvent list \<times> Pipeline" where
  "jobEvents B env index totalJobs [] pl = ([], pl)"
| "jobEvents B env index totalJobs (SProgress p now # es) pl =
     (let a = (if pl_aborted pl then []
               else handleJobProgress B p (se_duration env) index totalJobs (se_startTime env)
                      now (Num 0))
      in case jobEvents B env index totalJobs es pl of (b, pl') \<Rightarrow> (a @ b, pl'))"
| "jobEvents B env index totalJobs (SAbort # es) pl =
     (case abort pl of
        (a, pl1) \<Rightarrow> (case jobEvents B env index totalJobs es pl1 of (b, pl') \<Rightarrow> (a @ b, pl')))"
| "jobEvents B env index totalJobs (SRun input # es) pl =
     (case runAgain input pl of
        (a, pl1) \<Rightarrow> (case jobEvents B env index totalJobs es pl1 of (b, pl') \<Rightarrow> (a @ b, pl')))"

text \<open>\<open>executeJob\<close> returns the events, the pipeline, and the error its promise is
  rejected with, if any.\<close>

definition executeJob ::
  "Builtins \<Rightarrow> StepEnv \<Rightarrow> JobOptions \<Rightarrow> nat \<Rightarrow> nat \<Rightarrow> Pipeline
   \<Rightarrow> PipelineEvent list \<times> Pipeline \<times> MediaXError option" where
  "executeJob B env step index totalJobs pl =
     (if pl_aborted pl then ([], pl, None)
      else
        (case jobEvents B env index totalJobs (se_events env) pl of
           (evs, pl') \<Rightarrow>
             (let pre = [CreateJob step, PJobStart (o_type step) (index + 1)]
              in case se_end env of
                   EndDone output \<Rightarrow>
                     (pre @ evs
                      @ [PJobComplete (o_type step) (index + 1)
                           (if truthyStr output then bang output else bang (o_output step))],
                      pl', None)
                 | EndError err \<Rightarrow>
                     (pre @ evs, pl', Some (enhanceJobError err (o_type step) (index + 1)))
                 | EndTimeout \<Rightarrow>
                     (pre @ evs, pl',
                      Some (mkMediaXError
                              (''Job '' @ showNat (index + 1) @ '' ('' @ typeName (o_type step)
                               @ '') timed out after ''
                               @ showMinutes (getJobTimeout (o_type step)) @ '' minutes'')
                              ''JOB_TIMEOUT'' (Some (o_type step)))))))"

text \<open>The loop of \<open>executePipeline\<close> from index \<open>i\<close> on, with its \<open>catch\<close>.\<close>

function executeLoop ::
  "Builtins \<Rightarrow> (nat \<Rightarrow> StepEnv) \<Rightarrow> nat \<Rightarrow> nat \<Rightarrow> string \<Rightarrow> Pipeline
   \<Rightarrow> PipelineEvent list \<times> Pipeline" where
  "executeLoop B envs totalJobs i lastOutput pl =
     (if i < totalJobs \<and> \<not> pl_aborted pl
      then
        (case nthOpt (pl_steps pl) i of
           None \<Rightarrow>
             ([PError (enhanceError
                         (PlainError ''Cannot set properties of undefined (setting 'input')'')
                         (- 1)) (- 1)], pl)
         | Some step \<Rightarrow>
             (case resolveJobInput pl step i lastOutput of
                Inl msg \<Rightarrow> ([PError (enhanceError (PlainError msg) (- 1)) (- 1)], pl)
              | Inr inp \<Rightarrow>
                  (let step1 = step\<lparr>o_input := inp\<rparr>;
                       step2 = (if \<not> truthyStr (o_output step1)
                                then step1\<lparr>o_output :=
                                       Some (generateDefaultOutput (o_type step1) i
                                               (se_timestamp (envs i)))\<rparr>
                                else step1);
                       pl1 = pl\<lparr>pl_steps := (pl_steps pl)[i := step2]\<rparr>
                   in case executeJob B (envs i) step2 i totalJobs pl1 of
                        (evs, pl2, Some err) \<Rightarrow>
                          (evs @ [PError (enhanceError (MxError err) (- 1)) (- 1)], pl2)
                      | (evs, pl2, None) \<Rightarrow>
                          (case executeLoop B envs totalJobs (i + 1) (bang (o_output step2)) pl2 of
                             (evs', pl3) \<Rightarrow> (evs @ evs', pl3)))))
      else ((if \<not> pl_aborted pl then [PDone] else []), pl))"
  by pat_completeness auto
termination
  by (relation "measure (\<lambda>(B, envs, totalJobs, i, lastOutput, pl). totalJobs - i)") auto

declare executeLoop.simps [simp del]

definition executePipeline ::
  "Builtins \<Rightarrow> (nat \<Rightarrow> StepEnv) \<Rightarrow> Pipeline \<Rightarrow> PipelineEvent list \<times> Pipeline" where
  "executePipeline B envs pl =
     executeLoop B envs (length (pl_steps pl)) 0 (pl_initialInput pl) pl"

subsection \<open>Pre-flight validation and run\<close>

text \<open>
  The file system is a state \<open>'fs\<close> with the operations the validation uses:
  \<open>existsSync\<close>, whether \<open>accessSync(path, R_OK)\<close> returns, \<open>mkdirSync\<close> with
  \<open>recursive\<close> (the new state, or \<open>None\<close> when it throws), and \<open>path.dirname\<close>.
\<close>

record 'fs FsOps =
  fs_existsSync :: "'fs \<Rightarrow> string \<Rightarrow> bool"
  fs_accessOk :: "'fs \<Rightarrow> string \<Rightarrow> bool"
  fs_mkdirSync :: "'fs \<Rightarrow> string \<Rightarrow> 'fs option"
  path_dirname :: "string \<Rightarrow> string"

definition trim :: "string \<Rightarrow> string" where
  "trim s = rev (dropWhile isSpace (rev (dropWhile isSpace s)))"

fun validateStepSequence :: "JobOptions list \<Rightarrow> PipelineEvent list" where
  "validateStepSequence (prevStep # step # rest) =
     (if o_type prevStep \<in> AUDIO_OPERATIONS \<and> o_type step \<in> VIDEO_REQUIRED_OPERATIONS
         \<and> o_type step \<noteq> Thumbnail
      then [PWarning (typeName (o_type step) @ '' after '' @ typeName (o_type prevStep)
                      @ '' may fail - no video stream available'') (Some (o_type step))]
      else [])
     @ validateStepSequence (step # rest)"
| "validateStepSequence _ = []"

text \<open>The loop of \<open>validateOutputPaths\<close> over the remaining steps, with the set
  \<open>outputs\<close> collected so far; it returns the file system and the error thrown, if any.\<close>

fun validateOutputPaths ::
  "'fs FsOps \<Rightarrow> JobOptions list \<Rightarrow> string set \<Rightarrow> 'fs \<Rightarrow> 'fs \<times> MediaXError option" where
  "validateOutputPaths ops [] outputs fs = (fs, None)"
| "validateOutputPaths ops (step # rest) outputs fs =
     (if truthyStr (o_output step)
      then
        (let out = bang (o_output step)
         in if out \<in> outputs
            then (fs, Some (mkValidationError (''Duplicate output path: '' @ out)
                              (Some (o_type step))))
            else
              (let outputDir = path_dirname ops out
               in if \<not> fs_existsSync ops fs outputDir
                  then (case fs_mkdirSync ops fs outputDir of
                          None \<Rightarrow>
                            (fs, Some (mkValidationError
                                         (''Cannot create output directory: '' @ outputDir)
                                         (Some (o_type step))))
                        | Some fs' \<Rightarrow> validateOutputPaths ops rest (insert out outputs) fs')
                  else validateOutputPaths ops rest (insert out outputs) fs))
      else validateOutputPaths ops rest outputs fs)"

definition validatePipeline ::
  "'fs FsOps \<Rightarrow> 'fs \<Rightarrow> Pipeline \<Rightarrow> PipelineEvent list \<times> 'fs \<times> MediaXError option" where
  "validatePipeline ops fs pl =
     (if trim (pl_initialInput pl) = []
      then ([], fs, Some (mkValidationError ''Pipeline input not set'' None))
      else if \<not> fs_existsSync ops fs (pl_initialInput pl)
      then ([], fs, Some (mkValidationError
                            (''Input file does not exist: '' @ pl_initialInput pl) None))
      else if pl_steps pl = []
      then ([], fs, Some (mkValidationError ''Pipeline has no steps defined'' None))
      else if \<not> fs_accessOk ops fs (pl_initialInput pl)
      then ([], fs, Some (mkValidationError
                            (''Cannot read input file: '' @ pl_initialInput pl) None))
      else (case validateOutputPaths ops (pl_steps pl) {} fs of
              (fs', err) \<Rightarrow> (validateStepSequence (pl_steps pl), fs', err)))"

text \<open>
  \<open>run\<close>, with the time it takes folded into one call: the result holds the events in the
  order they are emitted and the pipeline once the promise of \<open>executePipeline\<close> has
  settled. \<open>isRunning\<close> is true while the steps run.
\<close>

definition run ::
  "Builtins \<Rightarrow> 'fs FsOps \<Rightarrow> (nat \<Rightarrow> StepEnv) \<Rightarrow> string option \<Rightarrow> 'fs \<Rightarrow> Pipeline
   \<Rightarrow> PipelineEvent list \<times> 'fs \<times> Pipeline" where
  "run B ops envs input fs pl =
     (let pl0 = (if truthyStr input then pl\<lparr>pl_initialInput := bang input\<rparr> else pl)
      in if pl_isRunning pl0
         then ([PError (mkMediaXError ''Pipeline is already running'' ''PIPELINE_RUNNING'' None) 0],
               fs, pl0)
         else
           (case validatePipeline ops fs pl0 of
              (w, fs', Some err) \<Rightarrow> (w @ [PError (enhanceError (MxError err) 0) 0], fs', pl0)
            | (w, fs', None) \<Rightarrow>
                (case executePipeline B envs (pl0\<lparr>pl_isRunning := True, pl_aborted := False\<rparr>) of
                   (evs, pl1) \<Rightarrow> (w @ evs, fs', pl1\<lparr>pl_isRunning := False\<rparr>))))"

text \<open>The steps handed to \<open>createJob\<close>, in order.\<close>

fun createdJobs :: "PipelineEvent list \<Rightarrow> JobOptions list" where
  "createdJobs [] = []"
| "createdJobs (CreateJob s # es) = s # createdJobs es"
| "createdJobs (e # es) = createdJobs es"

text \<open>The progress events among the events of a workflow.\<close>

fun progressOf :: "PipelineEvent list \<Rightarrow> PipelineEvent list" where
  "progressOf [] = []"
| "progressOf (PProgress pct k n eta # es) = PProgress pct k n eta # progressOf es"
| "progressOf (e # es) = progressOf es"

subsection \<open>The spec's reading of workflow progress\<close>

text \<open>
  Follows the spec's words, with the formulas evaluated in double arithmetic: for a
  progress event of the job of step \<open>stepIndex\<close> (0-based) of \<open>totalSteps\<close>, with the
  job's duration and the event's timemark available and a step percent of at least 1,
  the workflow reports the overall percent \<open>((stepIndex + stepPercent/100) / totalSteps)
  * 100\<close> and the ETA \<open>elapsed / (stepPercent/100) - elapsed\<close>; otherwise it reports
  nothing.
\<close>

definition workflowReport ::
  "Builtins \<Rightarrow> jsnum \<Rightarrow> nat \<Rightarrow> nat \<Rightarrow> int \<Rightarrow> RawProgress \<Rightarrow> int \<Rightarrow> PipelineEvent list" where
  "workflowReport B duration stepIndex totalSteps startTime p now =
     (let pct = stepPercent B p duration;
          elapsed = jdiv (jsub (Num (of_int now)) (Num (of_int startTime))) (Num 1000)
      in if truthyNum duration \<and> truthyStr (p_timemark p) \<and> jge pct (Num 1)
         then [PProgress
                 (jmul (jdiv (jadd (Num (of_nat stepIndex)) (jdiv pct (Num 100)))
                             (Num (of_nat totalSteps)))
                       (Num 100))
                 (stepIndex + 1) totalSteps
                 (Some (jsub (jdiv elapsed (jdiv pct (Num 100))) elapsed))]
         else [])"



subsection \<open>Sample workflows and the spec's reading of input wiring\<close>

text \<open>A small file system for the examples: the list of the paths that exist.\<close>

definition simpleDirname :: "string \<Rightarrow> string" where
  "simpleDirname s =
     (if CHR ''/'' \<in> set s then rev (tl (dropWhile (\<lambda>c. c \<noteq> CHR ''/'') (rev s))) else ''.'')"

definition listFs :: "string list FsOps" where
  "listFs = \<lparr> fs_existsSync = (\<lambda>fs p. p \<in> set fs), fs_accessOk = (\<lambda>fs p. p \<in> set fs),
              fs_mkdirSync = (\<lambda>fs p. Some (p # fs)), path_dirname = simpleDirname \<rparr>"

definition sampleFs :: "string list" where
  "sampleFs = [''sample.mp4'', ''.'']"

definition quietEnv :: StepEnv where
  "quietEnv = \<lparr> se_timestamp = 42, se_startTime = 0, se_duration = Num 10,
                se_events = [], se_end = EndDone None \<rparr>"

definition dupPipeline :: Pipeline where
  "dupPipeline = \<lparr> pl_steps = [(emptyOptions Convert [])\<lparr>o_output := Some ''out.mkv''\<rparr>,
                               (emptyOptions Compress [])\<lparr>o_output := Some ''out.mkv'',
                                                           o_bitrate := Some ''800k''\<rparr>],
                   pl_initialInput = ''sample.mp4'', pl_isRunning = False, pl_aborted = False \<rparr>"

definition samplePipeline :: Pipeline where
  "samplePipeline = \<lparr> pl_steps = [(emptyOptions Convert [])\<lparr>o_output := Some ''out.mkv''\<rparr>,
                               (emptyOptions Compress [])\<lparr>o_output := Some ''out_c.mkv'',
                                                           o_bitrate := Some ''800k''\<rparr>,
                               (emptyOptions Thumbnail [])\<lparr>o_output := Some ''thumb.png'',
                                                           o_time := Some ''00:00:05''\<rparr>],
                   pl_initialInput = ''sample.mp4'', pl_isRunning = True, pl_aborted = False \<rparr>"

definition audioPipeline :: Pipeline where
  "audioPipeline = \<lparr> pl_steps = [(emptyOptions ExtractAudio [])\<lparr>o_output := Some ''a.aac'',
                                                           o_codec := Some ''aac''\<rparr>,
                               (emptyOptions Thumbnail [])\<lparr>o_output := Some ''thumb.png''\<rparr>],
                   pl_initialInput = ''sample.mp4'', pl_isRunning = True, pl_aborted = False \<rparr>"


definition idleAudioPipeline :: Pipeline where
  "idleAudioPipeline = audioPipeline\<lparr>pl_isRunning := False\<rparr>"



text \<open>Quiet jobs, and a call of \<open>run('other.mp4')\<close> while the first of them runs.\<close>

definition rerunEnvs :: "nat \<Rightarrow> StepEnv" where
  "rerunEnvs i = quietEnv\<lparr>se_events := (if i = 0 then [SRun (Some ''other.mp4'')] else [])\<rparr>"

text \<open>An event that leaves \<open>initialInput\<close> as it is: any but a call of \<open>run\<close> with a
  truthy input.\<close>

fun keepsInput :: "StepEvent \<Rightarrow> bool" where
  "keepsInput (SRun input) = (\<not> truthyStr input)"
| "keepsInput ev = True"

text \<open>
  Follows the spec's words: among the jobs \<open>js\<close> of a workflow with original input
  \<open>init\<close>, job \<open>i\<close> reads the right input. A thumbnail reads the output of the nearest
  earlier job of a kind that produces playable media, or \<open>init\<close> when there is none; any
  other job reads the output of the job just before it, or \<open>init\<close> when it is the first.
\<close>

definition inputWiredAt :: "string \<Rightarrow> JobOptions list \<Rightarrow> nat \<Rightarrow> bool" where
  "inputWiredAt init js i =
     ((o_type (js ! i) = Thumbnail \<longrightarrow>
         (\<exists>j<i. o_type (js ! j) \<in> VIDEO_OPERATIONS
               \<and> (\<forall>k. j < k \<and> k < i \<longrightarrow> o_type (js ! k) \<notin> VIDEO_OPERATIONS)
               \<and> o_input (js ! i) = bang (o_output (js ! j)))
         \<or> ((\<forall>j<i. o_type (js ! j) \<notin> VIDEO_OPERATIONS) \<and> o_input (js ! i) = init))
      \<and> (o_type (js ! i) \<noteq> Thumbnail \<longrightarrow>
           o_input (js ! i) = (if i = 0 then init else bang (o_output (js ! (i - 1))))))"


section \<open>The scheduler with retries (JobQueue, packages/core/src/index.ts)\<close>

text \<open>
  Jobs are objects shared between the queue, its entries and the listeners, so the queue
  state holds a store \<open>jq_heap\<close> from references to jobs, and an entry names its job by
  reference. Besides the fields of the class the state holds what lives in closures:
  \<open>jq_listening\<close>, the entries whose \<open>onDone\<close> and \<open>onError\<close> are registered on their job
  (in order of registration), and \<open>jq_sleeping\<close>, the entries whose \<open>onError\<close> waits for
  the backoff timer. Two fields only observe: \<open>jq_started\<close> lists the jobs on which the
  queue called \<open>start\<close>, \<open>jq_seen\<close> every value \<open>running\<close> has had. The events the queue
  re-emits under the names \<open>job:state\<close>, \<open>job:progress\<close>, \<open>job:done\<close>, \<open>job:error\<close> and
  \<open>job:cancel\<close> change no state and are left out. The limit \<open>concurrency\<close> is the
  number the caller gave, whole or not, compared as JavaScript compares numbers;
  \<open>maxRetries\<close> and \<open>backoffMs\<close> are taken to be whole numbers.
\<close>

record Entry =
  en_job :: nat
  en_tries :: int

record JobQueue =
  jq_heap :: "nat \<Rightarrow> Job"
  jq_q :: "Entry list"
  jq_running :: int
  jq_stopped :: bool
  jq_concurrency :: jsnum
  jq_maxRetries :: int
  jq_backoffMs :: int
  jq_listening :: "Entry list"
  jq_sleeping :: "Entry list"
  jq_started :: "nat list"
  jq_seen :: "int list"

definition newJobQueue ::
  "(nat \<Rightarrow> Job) \<Rightarrow> jsnum option \<Rightarrow> int option \<Rightarrow> int option \<Rightarrow> JobQueue" where
  "newJobQueue heap concurrency maxRetries backoffMs =
     \<lparr> jq_heap = heap, jq_q = [], jq_running = 0, jq_stopped = False,
       jq_concurrency = orElse concurrency (Num 2),
       jq_maxRetries = orElse maxRetries 0,
       jq_backoffMs = orElse backoffMs 0,
       jq_listening = [], jq_sleeping = [], jq_started = [], jq_seen = [0] \<rparr>"

definition setRunning :: "int \<Rightarrow> JobQueue \<Rightarrow> JobQueue" where
  "setRunning v s = s\<lparr>jq_running := v, jq_seen := jq_seen s @ [v]\<rparr>"

text \<open>
  \<open>runEntry\<close>: count the entry as running, register its two listeners, call
  \<open>job.start()\<close>. The events \<open>start\<close> emits (start, state) have no listener that touches
  the queue. The second component is the exception of \<open>start\<close>, which leaves \<open>runEntry\<close>.
\<close>

definition runEntry :: "Entry \<Rightarrow> JobQueue \<Rightarrow> JobQueue \<times> string option" where
  "runEntry entry s =
     (let s1 = setRunning (jq_running s + 1) s;
          s2 = s1\<lparr>jq_listening := jq_listening s1 @ [entry],
                  jq_started := jq_started s1 @ [en_job entry]\<rparr>
      in case start None (jq_heap s2 (en_job entry)) of
           (acts, j', exn) \<Rightarrow> (s2\<lparr>jq_heap := (jq_heap s2)(en_job entry := j')\<rparr>, exn))"

text \<open>The loop of \<open>tick\<close>; the first argument is \<open>this.q\<close>, which \<open>runEntry\<close> does not
  touch.\<close>

fun admit :: "Entry list \<Rightarrow> JobQueue \<Rightarrow> JobQueue \<times> string option" where
  "admit [] s = (s\<lparr>jq_q := []\<rparr>, None)"
| "admit (entry # rest) s =
     (if jgt (jq_concurrency s) (Num (of_int (jq_running s)))
      then (case runEntry entry (s\<lparr>jq_q := rest\<rparr>) of
              (s', Some exn) \<Rightarrow> (s', Some exn)
            | (s', None) \<Rightarrow> admit rest s')
      else (s\<lparr>jq_q := entry # rest\<rparr>, None))"

definition tick :: "JobQueue \<Rightarrow> JobQueue \<times> string option" where
  "tick s = (if jq_stopped s then (s, None) else admit (jq_q s) s)"

definition cleanup :: "Entry \<Rightarrow> JobQueue \<Rightarrow> JobQueue" where
  "cleanup entry s = s\<lparr>jq_listening := remove1 entry (jq_listening s)\<rparr>"

definition onDone :: "Entry \<Rightarrow> JobQueue \<Rightarrow> JobQueue \<times> string option" where
  "onDone entry s = tick (setRunning (jq_running (cleanup entry s) - 1) (cleanup entry s))"

text \<open>The last two statements of \<open>onError\<close>. \<open>onError\<close> is an async function: an
  exception in it rejects a promise nobody reads, so it goes nowhere.\<close>

definition finishError :: "JobQueue \<Rightarrow> JobQueue" where
  "finishError s = fst (tick (setRunning (jq_running s - 1) s))"

definition onError :: "Entry \<Rightarrow> JobQueue \<Rightarrow> JobQueue" where
  "onError entry s =
     (let s1 = cleanup entry s
      in if en_tries entry < jq_maxRetries s1
         then (let entry' = entry\<lparr>en_tries := en_tries entry + 1\<rparr>
               in if jq_backoffMs s1 \<noteq> 0
                  then s1\<lparr>jq_sleeping := jq_sleeping s1 @ [entry']\<rparr>
                  else finishError (s1\<lparr>jq_q := entry' # jq_q s1\<rparr>))
         else finishError s1)"

text \<open>The backoff timer of the entry that has slept longest fires, and its \<open>onError\<close>
  goes on after the \<open>await\<close>.\<close>

definition backoffElapsed :: "JobQueue \<Rightarrow> JobQueue" where
  "backoffElapsed s =
     (case jq_sleeping s of
        [] \<Rightarrow> s
      | entry # rest \<Rightarrow> finishError (s\<lparr>jq_sleeping := rest, jq_q := entry # jq_q s\<rparr>))"

text \<open>
  A job emits done or error: the listeners registered at that moment are called in order.
  An exception of a done listener leaves \<open>emit\<close>, so the listeners after it are not
  called.
\<close>

fun fireDone :: "Entry list \<Rightarrow> JobQueue \<Rightarrow> JobQueue \<times> string option" where
  "fireDone [] s = (s, None)"
| "fireDone (entry # rest) s =
     (case onDone entry s of
        (s', Some exn) \<Rightarrow> (s', Some exn)
      | (s', None) \<Rightarrow> fireDone rest s')"

fun fireError :: "Entry list \<Rightarrow> JobQueue \<Rightarrow> JobQueue" where
  "fireError [] s = s"
| "fireError (entry # rest) s = fireError rest (onError entry s)"

definition listenersOf :: "nat \<Rightarrow> JobQueue \<Rightarrow> Entry list" where
  "listenersOf r s = filter (\<lambda>e. en_job e = r) (jq_listening s)"

fun dispatch :: "nat \<Rightarrow> action list \<Rightarrow> JobQueue \<Rightarrow> JobQueue \<times> string option" where
  "dispatch r [] s = (s, None)"
| "dispatch r (Emit (EvDone out) # acts) s =
     (case fireDone (listenersOf r s) s of
        (s', Some exn) \<Rightarrow> (s', Some exn)
      | (s', None) \<Rightarrow> dispatch r acts s')"
| "dispatch r (Emit (EvError msg) # acts) s = dispatch r acts (fireError (listenersOf r s) s)"
| "dispatch r (a # acts) s = dispatch r acts s"

text \<open>\<open>findIndex\<close> and \<open>splice\<close> in one: the first element that satisfies \<open>P\<close>, and the
  list without it.\<close>

fun extractFirst :: "('a \<Rightarrow> bool) \<Rightarrow> 'a list \<Rightarrow> ('a \<times> 'a list) option" where
  "extractFirst P [] = None"
| "extractFirst P (x # xs) =
     (if P x then Some (x, xs)
      else (case extractFirst P xs of None \<Rightarrow> None | Some (y, ys) \<Rightarrow> Some (y, x # ys)))"

text \<open>
  What can happen to a queue: the calls of its methods (\<open>add\<close> of the job at a reference,
  \<open>pause\<close>, \<open>resume\<close>, \<open>cancel\<close> of a job id), a call or a process event on one of the
  jobs, and a backoff timer firing. The values the methods return (the job id of \<open>add\<close>,
  the boolean of \<open>cancel\<close>) are not part of the state.
\<close>

datatype QEvent =
  Add nat | Pause | Resume | QCancel string | JobEvt nat JobInput | BackoffElapsed

fun qStep :: "QEvent \<Rightarrow> JobQueue \<Rightarrow> JobQueue \<times> string option" where
  "qStep (Add r) s = tick (s\<lparr>jq_q := jq_q s @ [\<lparr>en_job = r, en_tries = 0\<rparr>]\<rparr>)"
| "qStep Pause s = (s\<lparr>jq_stopped := True\<rparr>, None)"
| "qStep Resume s = tick (s\<lparr>jq_stopped := False\<rparr>)"
| "qStep (QCancel jobId) s =
     (case extractFirst (\<lambda>e. j_id (jq_heap s (en_job e)) = jobId) (jq_q s) of
        None \<Rightarrow> (s, None)
      | Some (e, rest) \<Rightarrow>
          (case cancel ''removed'' (jq_heap s (en_job e)) of
             (acts, j') \<Rightarrow>
               dispatch (en_job e) acts
                 (s\<lparr>jq_q := rest, jq_heap := (jq_heap s)(en_job e := j')\<rparr>)))"
| "qStep (JobEvt r inp) s =
     (case jobStep inp (jq_heap s r) of
        (acts, j') \<Rightarrow> dispatch r acts (s\<lparr>jq_heap := (jq_heap s)(r := j')\<rparr>))"
| "qStep BackoffElapsed s = (backoffElapsed s, None)"

text \<open>A sequence of events; an exception ends the call it came from, not the queue.\<close>

fun qRun :: "QEvent list \<Rightarrow> JobQueue \<Rightarrow> JobQueue" where
  "qRun [] s = s"
| "qRun (ev # evs) s = qRun evs (fst (qStep ev s))"

text \<open>With the limit the number \<open>c\<close>, the counter has always been below \<open>c + 1\<close>.\<close>

definition boundedBy :: "rat \<Rightarrow> JobQueue \<Rightarrow> bool" where
  "boundedBy c s =
     (jq_concurrency s = Num c \<and> of_int (jq_running s) < c + 1
      \<and> (\<forall>v\<in>set (jq_seen s). of_int v < c + 1))"

definition sampleHeap :: "nat \<Rightarrow> Job" where
  "sampleHeap = (\<lambda>r. freshJob)"

section \<open>The plain Queue (queue.ts, in packages/core/src/index.ts)\<close>

text \<open>
  The Queue runs jobs of the fluent-ffmpeg kind. Its listeners call \<open>next\<close>, and \<open>next\<close>
  calls \<open>job.start()\<close>, which can call the listeners again before it returns: the
  second version of that job reports an empty input through an error event emitted
  inside \<open>start\<close>. The model therefore runs the code one statement group at a time, with
  the calls still to be made on a stack; an event from outside is taken only when the
  stack is empty. \<open>sq_listening\<close> lists the jobs in the order \<open>next\<close> registered its
  listeners on them (they are never removed).
\<close>

datatype SQEvent = JobStart nat | JobProgress nat | JobDoneEv nat | JobErrorEv nat | Empty

record SimpleQueue =
  sq_heap :: "nat \<Rightarrow> JobOptions"
  sq_concurrency :: jsnum
  sq_running :: int
  sq_jobs :: "nat list"
  sq_listening :: "nat list"
  sq_emitted :: "SQEvent list"

definition newQueue :: "(nat \<Rightarrow> JobOptions) \<Rightarrow> jsnum option \<Rightarrow> SimpleQueue" where
  "newQueue heap concurrency =
     \<lparr> sq_heap = heap, sq_concurrency = orElse concurrency (Num 2), sq_running = 0, sq_jobs = [],
       sq_listening = [], sq_emitted = [] \<rparr>"

definition startEmitsNow :: "JobOptions \<Rightarrow> bool" where
  "startEmitsNow opts = (o_input opts = [])"

text \<open>A frame of the stack: a call of \<open>next\<close>; the check for the empty event that follows
  it in a listener; the listeners of a done (\<open>True\<close>) or error event of a job that are
  still to be called, by their number.\<close>

datatype Frame = CallNext | CheckEmpty | Listeners bool nat nat

fun sqSmallStep :: "Frame \<Rightarrow> Frame list \<Rightarrow> SimpleQueue \<Rightarrow> SimpleQueue \<times> Frame list" where
  "sqSmallStep CallNext st s =
     (if jge (Num (of_int (sq_running s))) (sq_concurrency s) then (s, st)
      else (case sq_jobs s of
              [] \<Rightarrow> (s, st)
            | job # rest \<Rightarrow>
                (let s1 = s\<lparr>sq_jobs := rest, sq_running := sq_running s + 1,
                            sq_emitted := sq_emitted s @ [JobStart job],
                            sq_listening := sq_listening s @ [job]\<rparr>
                 in (s1, (if startEmitsNow (sq_heap s1 job)
                          then [Listeners False job (count_list (sq_listening s1) job)]
                          else []) @ st))))"
| "sqSmallStep CheckEmpty st s =
     ((if sq_running s = 0 \<and> sq_jobs s = [] then s\<lparr>sq_emitted := sq_emitted s @ [Empty]\<rparr>
       else s), st)"
| "sqSmallStep (Listeners isDone job 0) st s = (s, st)"
| "sqSmallStep (Listeners isDone job (Suc k)) st s =
     (s\<lparr>sq_running := sq_running s - 1,
        sq_emitted := sq_emitted s @ [if isDone then JobDoneEv job else JobErrorEv job]\<rparr>,
      CallNext # CheckEmpty # Listeners isDone job k # st)"

text \<open>What drives the queue: \<open>add\<close>, an event of a job, or one more step of the code that
  is running.\<close>

datatype SQInput = SQAdd nat | SQJobDone nat | SQJobError nat | SQJobProgress nat | SQStep

fun sqFeed :: "SQInput \<Rightarrow> SimpleQueue \<times> Frame list \<Rightarrow> SimpleQueue \<times> Frame list" where
  "sqFeed SQStep (s, []) = (s, [])"
| "sqFeed SQStep (s, f # st) = sqSmallStep f st s"
| "sqFeed (SQAdd job) (s, []) = (s\<lparr>sq_jobs := sq_jobs s @ [job]\<rparr>, [CallNext])"
| "sqFeed (SQJobDone job) (s, []) = (s, [Listeners True job (count_list (sq_listening s) job)])"
| "sqFeed (SQJobError job) (s, []) = (s, [Listeners False job (count_list (sq_listening s) job)])"
| "sqFeed (SQJobProgress job) (s, []) =
     (s\<lparr>sq_emitted := sq_emitted s @ replicate (count_list (sq_listening s) job) (JobProgress job)\<rparr>,
      [])"
| "sqFeed ev (s, f # st) = (s, f # st)"

fun sqRun :: "SQInput list \<Rightarrow> SimpleQueue \<times> Frame list \<Rightarrow> SimpleQueue \<times> Frame list" where
  "sqRun [] c = c"
| "sqRun (i # ins) c = sqRun ins (sqFeed i c)"

definition sampleOpts :: "nat \<Rightarrow> JobOptions" where
  "sampleOpts = (\<lambda>r. (emptyOptions Convert (if r = 1 then [] else ''in.mp4''))
                        \<lparr>o_output := Some ''out.mkv''\<rparr>)"


subsection \<open>Accounting for the starts of one job\<close>

text \<open>
  For the job at reference \<open>r\<close> and retry limit \<open>m\<close>, an entry still has starts ahead of
  it: \<open>m + 1 - tries\<close> while it waits in the backlog or for its backoff timer, one less
  while it runs. \<open>remainingStarts\<close> adds them up over the entries of \<open>r\<close>; \<open>startsOf\<close>
  counts the calls of \<open>start\<close> the queue has made on \<open>r\<close>.
\<close>

definition weight :: "int \<Rightarrow> nat \<Rightarrow> int \<Rightarrow> Entry list \<Rightarrow> int" where
  "weight m r b es = sum_list (map (\<lambda>e. m + b - en_tries e) (filter (\<lambda>e. en_job e = r) es))"

definition remainingStarts :: "int \<Rightarrow> nat \<Rightarrow> JobQueue \<Rightarrow> int" where
  "remainingStarts m r s =
     weight m r 1 (jq_q s) + weight m r 1 (jq_sleeping s) + weight m r 0 (jq_listening s)"

definition startsOf :: "nat \<Rightarrow> JobQueue \<Rightarrow> int" where
  "startsOf r s = int (count_list (jq_started s) r)"

definition accounted :: "int \<Rightarrow> nat \<Rightarrow> string \<Rightarrow> int \<Rightarrow> JobQueue \<Rightarrow> bool" where
  "accounted m r i K s =
     (jq_maxRetries s = m \<and> j_id (jq_heap s r) = i
      \<and> startsOf r s + remainingStarts m r s = K
      \<and> (\<forall>e\<in>set (jq_q s @ jq_sleeping s @ jq_listening s). en_job e = r \<longrightarrow> en_tries e \<le> m))"

text \<open>No entry of the job at \<open>r\<close> is left in the queue: not in the backlog, not running,
  not waiting for a backoff timer.\<close>

definition dropped :: "nat \<Rightarrow> JobQueue \<Rightarrow> bool" where
  "dropped r s = (\<forall>e\<in>set (jq_q s @ jq_sleeping s @ jq_listening s). en_job e \<noteq> r)"

subsection \<open>Sample queues\<close>

text \<open>One job that fails three times; a paused queue with one job running and one waiting;
  a paused queue whose only job sleeps before its retry; a queue whose only job is on its
  last try.\<close>

definition failThrice :: "QEvent list" where
  "failThrice = [Add 0, JobEvt 0 (ProcClose (Some 1)), JobEvt 0 (ProcClose (Some 1)),
                 JobEvt 0 (ProcClose (Some 1))]"

definition pausedQueue :: JobQueue where
  "pausedQueue = qRun [Add 0, Add 1, Pause] (newJobQueue sampleHeap (Some (Num 1)) (Some 2) None)"

definition sleepingQueue :: JobQueue where
  "sleepingQueue = qRun [Add 0, Pause, JobEvt 0 (ProcClose (Some 1))]
                     (newJobQueue sampleHeap (Some (Num 1)) (Some 2) (Some 5))"

definition lastTryQueue :: JobQueue where
  "lastTryQueue = qRun [Add 0, JobEvt 0 (ProcClose (Some 1)), JobEvt 0 (ProcClose (Some 1))]
                     (newJobQueue sampleHeap (Some (Num 1)) (Some 2) None)"


definition threeAdds :: "QEvent list" where
  "threeAdds = [Add 0, Add 1, Add 2]"

section \<open>Properties of the spawn-based Job\<close>

lemma newJob_fresh: "newJob True ''job-1'' convertNoOutput ''ffmpeg'' = Inr freshJob"
  by (simp add: newJob_def freshJob_def convertNoOutput_def emptyOptions_def)

lemma newJob_emptyOutput:
  "newJob True ''job-2'' convertEmptyOutput ''ffmpeg'' = Inr emptyOutputJob"
  by (simp add: newJob_def emptyOutputJob_def convertEmptyOutput_def emptyOptions_def)

lemma start_freshJob:
  "start t freshJob =
     ([Emit (EvStart ''ffmpeg -i in.mp4 -y output.mp4''), Emit (EvState Running),
       Spawn ''ffmpeg'' [''-i'', ''in.mp4'', ''-y'', ''output.mp4'']]
      @ (if truthyInt t then [SetTimeout (orElse t 0)] else []),
      freshJob\<lparr>j_state := Running, j_proc := True\<rparr>, None)"
  by (simp add: start_def freshJob_def buildArgs_def withDefaults_def emptyOptions_def
                setState_def)

lemma buildArgs_throws_iff:
  "isl (buildArgs o') \<longleftrightarrow>
     (case o_type o' of
        Metadata \<Rightarrow> False
      | UnknownType t \<Rightarrow> True
      | ReplaceAudio \<Rightarrow> \<not> truthyStr (o_audio o') \<or> \<not> truthyStr (o_output o')
      | Watermark \<Rightarrow> \<not> truthyStr (o_watermark o') \<or> \<not> truthyStr (o_output o')
      | _ \<Rightarrow> \<not> truthyStr (o_output o'))"
  by (simp add: buildArgs_def split: JobType.splits)

lemma buildArgs_last:
  "buildArgs o' = Inr args \<Longrightarrow> requiresOutput (o_type o') \<Longrightarrow> last args = bang (o_output o')"
  by (auto simp: buildArgs_def split: JobType.splits if_splits)

lemma start_throws:
  "buildArgs (j_opts j) = Inl e \<Longrightarrow> start t j = ([], j, Some e)"
  by (simp add: start_def)

lemma start_spawns:
  "buildArgs (j_opts j) = Inr args \<Longrightarrow>
     snd (snd (start t j)) = None \<and> Spawn (j_ffmpegPath j) args \<in> set (fst (start t j))"
  by (simp add: start_def setState_def)

lemma newJob_fields:
  "newJob found fresh opts path = Inr j \<Longrightarrow>
     j_opts j = withDefaults opts \<and> j_ffmpegPath j = path \<and> j_state j = Queued
     \<and> \<not> j_proc j \<and> j_durationSec j = None"
  by (auto simp: newJob_def split: if_splits)

lemma withDefaults_fields:
  "o_output (withDefaults o') = Some (orElse (o_output o') ''output.mp4'')"
  "o_type (withDefaults o') = o_type o'"
  "o_audio (withDefaults o') = o_audio o'"
  "o_watermark (withDefaults o') = o_watermark o'"
  by (simp_all add: withDefaults_def)

text \<open>
  C1, as the code has it. The constructor replaces an absent output by the default
  \<open>output.mp4\<close>, so for a kind that requires an output \<open>start\<close> throws, before it emits
  anything or spawns a process and leaving the job as it was, exactly when the output is
  the empty string or the audio or watermark file of replaceAudio or watermark is missing;
  otherwise, an absent output included, it spawns the process, whose last argument is the
  given output or \<open>output.mp4\<close>.
\<close>

theorem start_absent_output_defaulted:
  assumes req: "requiresOutput (o_type opts)"
      and new: "newJob found fresh opts path = Inr j"
  shows "(o_output opts = Some [] \<or> \<not> auxInputsPresent opts \<longrightarrow>
            (\<exists>err. start t j = ([], j, Some err)))
       \<and> (o_output opts \<noteq> Some [] \<and> auxInputsPresent opts \<longrightarrow>
            (\<exists>args. snd (snd (start t j)) = None
                   \<and> Spawn path args \<in> set (fst (start t j))
                   \<and> last args = orElse (o_output opts) ''output.mp4''))"
proof -
  have f: "j_opts j = withDefaults opts" "j_ffmpegPath j = path"
    using newJob_fields [OF new] by simp_all
  have thr: "isl (buildArgs (j_opts j)) \<longleftrightarrow> (o_output opts = Some [] \<or> \<not> auxInputsPresent opts)"
    using req
    by (cases "o_output opts")
       (auto simp: f buildArgs_throws_iff withDefaults_fields auxInputsPresent_def
             split: JobType.splits)
  show ?thesis
  proof (intro conjI impI)
    assume "o_output opts = Some [] \<or> \<not> auxInputsPresent opts"
    then have "isl (buildArgs (j_opts j))" using thr by simp
    then obtain e where "buildArgs (j_opts j) = Inl e" by (cases "buildArgs (j_opts j)") auto
    then show "\<exists>err. start t j = ([], j, Some err)" using start_throws by blast
  next
    assume "o_output opts \<noteq> Some [] \<and> auxInputsPresent opts"
    then have "\<not> isl (buildArgs (j_opts j))" using thr by simp
    then obtain args where a: "buildArgs (j_opts j) = Inr args"
      by (cases "buildArgs (j_opts j)") auto
    have "last args = bang (o_output (j_opts j))"
      using buildArgs_last [OF a] req by (simp add: f withDefaults_fields)
    then have "last args = orElse (o_output opts) ''output.mp4''"
      by (simp add: f withDefaults_fields)
    then show "\<exists>args. snd (snd (start t j)) = None
                   \<and> Spawn path args \<in> set (fst (start t j))
                   \<and> last args = orElse (o_output opts) ''output.mp4''"
      using start_spawns [OF a, of t] f by auto
  qed
qed

text \<open>The theorem at a convert spec whose output is the empty string (start throws) and at
  one with no output at all (start spawns the process on \<open>output.mp4\<close>).\<close>

theorem start_absent_output_defaulted_witness:
  "requiresOutput (o_type convertEmptyOutput)
   \<and> newJob True ''job-2'' convertEmptyOutput ''ffmpeg'' = Inr emptyOutputJob
   \<and> o_output convertEmptyOutput = Some []
   \<and> (\<exists>err. start None emptyOutputJob = ([], emptyOutputJob, Some err))
   \<and> requiresOutput (o_type convertNoOutput)
   \<and> newJob True ''job-1'' convertNoOutput ''ffmpeg'' = Inr freshJob
   \<and> o_output convertNoOutput \<noteq> Some [] \<and> auxInputsPresent convertNoOutput
   \<and> (\<exists>args. snd (snd (start None freshJob)) = None
            \<and> Spawn ''ffmpeg'' args \<in> set (fst (start None freshJob))
            \<and> last args = orElse (o_output convertNoOutput) ''output.mp4'')"
proof -
  have r1: "requiresOutput (o_type convertEmptyOutput)"
    by (simp add: convertEmptyOutput_def emptyOptions_def)
  have e1: "o_output convertEmptyOutput = Some []"
    by (simp add: convertEmptyOutput_def emptyOptions_def)
  have r2: "requiresOutput (o_type convertNoOutput)"
    by (simp add: convertNoOutput_def emptyOptions_def)
  have e2: "o_output convertNoOutput \<noteq> Some [] \<and> auxInputsPresent convertNoOutput"
    by (simp add: convertNoOutput_def emptyOptions_def auxInputsPresent_def)
  show ?thesis
    using start_absent_output_defaulted [OF r1 newJob_emptyOutput, of None]
          start_absent_output_defaulted [OF r2 newJob_fresh, of None]
          r1 e1 r2 e2 newJob_emptyOutput newJob_fresh
    by simp
qed

text \<open>
  C1 as stated fails: a convert spec with no output field yields a job whose \<open>start\<close>
  throws nothing and spawns \<open>ffmpeg -i in.mp4 -y output.mp4\<close>.
\<close>

theorem start_absent_output_counterexample:
  "requiresOutput (o_type convertNoOutput) \<and> o_output convertNoOutput = None
   \<and> newJob True ''job-1'' convertNoOutput ''ffmpeg'' = Inr freshJob
   \<and> start None freshJob =
       ([Emit (EvStart ''ffmpeg -i in.mp4 -y output.mp4''), Emit (EvState Running),
         Spawn ''ffmpeg'' [''-i'', ''in.mp4'', ''-y'', ''output.mp4'']],
        freshJob\<lparr>j_state := Running, j_proc := True\<rparr>, None)"
  by (simp add: newJob_fresh start_freshJob) (simp add: convertNoOutput_def emptyOptions_def)

text \<open>
  C8 on the code: a job is started, cancelled while running (state cancelled), and the
  process then closes with exit code 0; the close handler sets the state to done, so a
  terminal state is left.
\<close>

theorem terminal_state_left:
  "j_state (snd (jobRun [CallStart (Some 1000), CallCancel ''timeout''] freshJob)) = Cancelled
   \<and> j_state (snd (jobRun [CallStart (Some 1000), CallCancel ''timeout'', ProcClose (Some 0)]
                      freshJob)) = Done"
  by (simp add: start_freshJob cancel_def setState_def procClose_def)

text \<open>
  C9: \<open>cancel\<close> on a job whose state is done, error or cancelled changes nothing and emits
  nothing.
\<close>

theorem cancel_terminal_noop:
  "j_state j \<in> {Done, Error, Cancelled} \<Longrightarrow> cancel reason j = ([], j)"
  by (auto simp: cancel_def)

theorem cancel_terminal_noop_witness:
  "j_state doneJob \<in> {Done, Error, Cancelled} \<and> cancel ''again'' doneJob = ([], doneJob)"
  using cancel_terminal_noop [of doneJob "''again''"] by (simp add: doneJob_def)

lemma durationSec_jobStep: "j_durationSec (snd (jobStep i j)) = j_durationSec j"
  by (cases i)
     (auto simp: start_def cancel_def procError_def procStderr_def procClose_def fail_def
                 setState_def split: sum.splits option.splits prod.splits)

lemma progress_jobStep:
  assumes "Emit (EvProgress p) \<in> set (fst (jobStep i j))"
  shows "\<exists>line. parseProgress j line = Some p"
  using assms
  by (cases i)
     (auto simp: start_def cancel_def procError_def procStderr_def procClose_def fail_def
                 setState_def split: sum.splits option.splits prod.splits if_splits)

lemma parseProgress_no_duration:
  "j_durationSec j = None \<Longrightarrow> parseProgress j line = Some p \<Longrightarrow> p_percent p = Num 0"
  by (auto simp: parseProgress_def Let_def split: if_splits)

lemma jobRun_no_duration:
  "j_durationSec j = None \<Longrightarrow>
     j_durationSec (snd (jobRun ins j)) = None
     \<and> (\<forall>p. Emit (EvProgress p) \<in> set (fst (jobRun ins j)) \<longrightarrow> p_percent p = Num 0)"
proof (induction ins arbitrary: j)
  case Nil
  then show ?case by simp
next
  case (Cons i ins)
  obtain a j' where s: "jobStep i j = (a, j')" by (cases "jobStep i j")
  obtain b j'' where r: "jobRun ins j' = (b, j'')" by (cases "jobRun ins j'")
  have d: "j_durationSec j' = None"
    using durationSec_jobStep [of i j] s Cons.prems by simp
  have ih: "j_durationSec j'' = None \<and> (\<forall>p. Emit (EvProgress p) \<in> set b \<longrightarrow> p_percent p = Num 0)"
    using Cons.IH [OF d] r by simp
  have hd: "\<forall>p. Emit (EvProgress p) \<in> set a \<longrightarrow> p_percent p = Num 0"
    using progress_jobStep [of _ i j] parseProgress_no_duration [OF Cons.prems] s by fastforce
  show ?case using s r ih hd by auto
qed

lemma sample_run:
  "fst (jobRun [CallStart None, ProcStderr ''frame=  240 fps= 30 time=00:00:08.00''] freshJob)
     = [Emit (EvStart ''ffmpeg -i in.mp4 -y output.mp4''), Emit (EvState Running),
        Spawn ''ffmpeg'' [''-i'', ''in.mp4'', ''-y'', ''output.mp4''],
        Emit (EvProgress sampleProgress)]"
  apply (simp add: start_freshJob procStderr_def sampleProgress_def)
  apply code_simp
  done

text \<open>
  C10: no call and no process event assigns \<open>durationSec\<close>, so after any sequence of them
  on a newly constructed job it is still undefined, and every progress notification
  emitted along the way carries percent 0.
\<close>

theorem spawn_job_percent_zero:
  assumes "newJob found fresh opts path = Inr j"
      and "Emit (EvProgress p) \<in> set (fst (jobRun ins j))"
  shows "j_durationSec (snd (jobRun ins j)) = None \<and> p_percent p = Num 0"
proof -
  have "j_durationSec j = None" using newJob_fields [OF assms(1)] by simp
  from jobRun_no_duration [OF this, of ins] assms(2) show ?thesis by simp
qed

theorem spawn_job_percent_zero_witness:
  "newJob True ''job-1'' convertNoOutput ''ffmpeg'' = Inr freshJob
   \<and> Emit (EvProgress sampleProgress)
       \<in> set (fst (jobRun [CallStart None, ProcStderr ''frame=  240 fps= 30 time=00:00:08.00'']
                     freshJob))
   \<and> p_time sampleProgress = Some ''00:00:08.00''
   \<and> p_percent sampleProgress = Num 0"
proof -
  have m: "Emit (EvProgress sampleProgress)
       \<in> set (fst (jobRun [CallStart None, ProcStderr ''frame=  240 fps= 30 time=00:00:08.00'']
                     freshJob))"
    unfolding sample_run by simp
  show ?thesis
    using spawn_job_percent_zero [OF newJob_fresh m] newJob_fresh m
    by (simp add: sampleProgress_def)
qed

section \<open>Double arithmetic\<close>

text \<open>
  \<open>toDouble\<close> rounds onto the doubles: its values are integers of at most 53 bits times a
  power of two, it leaves such numbers as they are, and so it is idempotent.
\<close>

lemma pow2_powi: "pow2 e = 2 powi e"
proof (induction e rule: pow2.induct)
  case (1 e)
  show ?case
  proof (cases "e < 0")
    case True
    then have "pow2 e = pow2 (e + 1) / 2" by (subst pow2.simps) simp
    also have "\<dots> = 2 powi (e + 1) / 2" using 1(1) True by simp
    also have "\<dots> = 2 powi e" by (simp add: power_int_add)
    finally show ?thesis .
  next
    case False
    show ?thesis
    proof (cases "e = 0")
      case True
      then show ?thesis by (subst pow2.simps) simp
    next
      case ne: False
      then have "pow2 e = 2 * pow2 (e - 1)" using False by (subst pow2.simps) simp
      also have "\<dots> = 2 * 2 powi (e - 1)" using 1(2) False ne by simp
      also have "\<dots> = 2 powi e" by (simp add: power_int_diff)
      finally show ?thesis .
    qed
  qed
qed

lemma pow2_pos [simp]: "0 < pow2 e"
  by (simp add: pow2_powi)

lemma pow2_nonneg [simp]: "0 \<le> pow2 e"
  by (simp add: pow2_powi)

lemma pow2_neq0 [simp]: "pow2 e \<noteq> 0"
  by (simp add: pow2_powi)

lemma pow2_not_neg [simp]: "\<not> pow2 e < 0"
  by (simp add: not_less)

lemma pow2_add: "pow2 (a + b) = pow2 a * pow2 b"
  by (simp add: pow2_powi power_int_add)

lemma pow2_0 [simp]: "pow2 0 = 1"
  by (simp add: pow2_powi)

lemma pow2_mono: "a \<le> b \<Longrightarrow> pow2 a \<le> pow2 b"
  by (simp add: pow2_powi power_int_increasing)

lemma pow2_strict_mono: "a < b \<Longrightarrow> pow2 a < pow2 b"
  by (simp add: pow2_powi power_int_strict_increasing)

lemma pow2_nat: "0 \<le> e \<Longrightarrow> pow2 e = of_int (2 ^ nat e)"
  by (simp add: pow2_powi power_int_def)

lemma bitLength_bounds:
  "0 < n \<Longrightarrow> 1 \<le> bitLength n \<and> 2 ^ nat (bitLength n - 1) \<le> n \<and> n < 2 ^ nat (bitLength n)"
proof (induction n rule: bitLength.induct)
  case (1 n)
  show ?case
  proof (cases "n = 1")
    case True
    have "bitLength 1 = 1" by (subst bitLength.simps, subst bitLength.simps) simp
    then show ?thesis using True by simp
  next
    case False
    then have h: "0 < n div 2" using 1(2) by simp
    have ih: "1 \<le> bitLength (n div 2) \<and> 2 ^ nat (bitLength (n div 2) - 1) \<le> n div 2
              \<and> n div 2 < 2 ^ nat (bitLength (n div 2))"
      using 1(1) 1(2) h by simp
    have e: "bitLength n = 1 + bitLength (n div 2)" using 1(2) by (subst bitLength.simps) simp
    let ?b = "bitLength (n div 2)"
    have n1: "nat (1 + ?b - 1) = Suc (nat (?b - 1))" using ih by arith
    have n2: "nat (1 + ?b) = Suc (nat ?b)" using ih by arith
    have a: "2 ^ nat (1 + ?b - 1) \<le> n"
    proof -
      have "2 * 2 ^ nat (?b - 1) \<le> 2 * (n div 2)" using ih by simp
      also have "\<dots> \<le> n" by simp
      finally show ?thesis by (simp only: n1 power_Suc)
    qed
    have b: "n < 2 ^ nat (1 + ?b)"
    proof -
      have "n div 2 + 1 \<le> 2 ^ nat ?b" using ih by simp
      then have "2 * (n div 2) + 2 \<le> 2 * 2 ^ nat ?b" by simp
      moreover have "n < 2 * (n div 2) + 2" by presburger
      ultimately show ?thesis by (simp only: n2 power_Suc)
    qed
    show ?thesis using a b ih e by simp
  qed
qed

lemma ilog2_bounds:
  assumes "0 < a"
  shows "pow2 (ilog2 a) \<le> a \<and> a < pow2 (ilog2 a + 1)"
proof (cases "1 \<le> a")
  case True
  let ?n = "\<lfloor>a\<rfloor>"
  have p: "0 < ?n" using True by simp
  note b = bitLength_bounds [OF p]
  have k: "ilog2 a = bitLength ?n - 1" using True by (simp add: ilog2_def)
  have "pow2 (bitLength ?n - 1) = of_int (2 ^ nat (bitLength ?n - 1))"
    using b by (intro pow2_nat) simp
  also have "\<dots> \<le> of_int ?n" using b by (simp only: of_int_le_iff)
  also have "\<dots> \<le> a" by (rule of_int_floor_le)
  finally have lo: "pow2 (ilog2 a) \<le> a" using k by simp
  have i: "?n + 1 \<le> 2 ^ nat (bitLength ?n)" using b by simp
  have "a < of_int (?n + 1)" by linarith
  also have "(of_int (?n + 1) :: rat) \<le> of_int (2 ^ nat (bitLength ?n))"
    using i by (simp only: of_int_le_iff)
  also have "\<dots> = pow2 (bitLength ?n)"
    using b by (intro pow2_nat [symmetric]) simp
  finally have "a < pow2 (bitLength ?n)" .
  then show ?thesis using lo k by simp
next
  case False
  let ?c = "\<lceil>1 / a\<rceil>"
  have a1: "a < 1" using False by simp
  have inv: "1 < 1 / a" using assms a1 by simp
  have c2: "2 \<le> ?c" using inv by linarith
  have k: "ilog2 a = - bitLength (?c - 1)" using False by (simp add: ilog2_def)
  have p: "0 < ?c - 1" using c2 by simp
  note b = bitLength_bounds [OF p]
  let ?L = "bitLength (?c - 1)"
  have up: "1 / a \<le> pow2 ?L"
  proof -
    have i: "?c \<le> 2 ^ nat ?L" using b by simp
    have "1 / a \<le> of_int ?c" by (rule le_of_int_ceiling)
    also have "(of_int ?c :: rat) \<le> of_int (2 ^ nat ?L)" using i by (simp only: of_int_le_iff)
    also have "\<dots> = pow2 ?L" using b by (intro pow2_nat [symmetric]) simp
    finally show ?thesis .
  qed
  have lo: "pow2 (?L - 1) < 1 / a"
  proof -
    have "pow2 (?L - 1) = of_int (2 ^ nat (?L - 1))" using b by (intro pow2_nat) simp
    also have "\<dots> \<le> of_int (?c - 1)"
      using b by (simp only: of_int_le_iff)
    also have "(of_int (?c - 1) :: rat) < 1 / a" by linarith
    finally show ?thesis .
  qed
  have m1: "pow2 (- ?L) * pow2 ?L = 1" using pow2_add [of "- ?L" ?L] by simp
  have m2: "pow2 (- ?L + 1) * pow2 (?L - 1) = 1" using pow2_add [of "- ?L + 1" "?L - 1"] by simp
  have r1: "pow2 (- ?L) \<le> a"
  proof -
    have "pow2 (- ?L) * (1 / a) \<le> pow2 (- ?L) * pow2 ?L"
      using up by (intro mult_left_mono) simp_all
    then have "pow2 (- ?L) / a \<le> 1" using m1 by simp
    then show ?thesis using assms by (simp add: field_simps)
  qed
  have r2: "a < pow2 (- ?L + 1)"
  proof -
    have "pow2 (- ?L + 1) * pow2 (?L - 1) < pow2 (- ?L + 1) * (1 / a)"
      using lo by (intro mult_strict_left_mono) simp_all
    then have "1 < pow2 (- ?L + 1) / a" using m2 by simp
    then show ?thesis using assms by (simp add: field_simps)
  qed
  show ?thesis using r1 r2 k by simp
qed

lemma ilog2_unique:
  assumes "pow2 k \<le> a" and "a < pow2 (k + 1)"
  shows "ilog2 a = k"
proof -
  have pos: "0 < a" using assms(1) pow2_pos [of k] by linarith
  note b = ilog2_bounds [OF pos]
  have "\<not> ilog2 a < k"
  proof
    assume "ilog2 a < k"
    then have "pow2 (ilog2 a + 1) \<le> pow2 k" by (intro pow2_mono) simp
    then show False using b assms by linarith
  qed
  moreover have "\<not> k < ilog2 a"
  proof
    assume "k < ilog2 a"
    then have "pow2 (k + 1) \<le> pow2 (ilog2 a)" by (intro pow2_mono) simp
    then show False using b assms by linarith
  qed
  ultimately show ?thesis by simp
qed

lemma roundEven_int [simp]: "roundEven (of_int m) = m"
  by (simp add: roundEven_def)

lemma roundEven_0 [simp]: "roundEven 0 = 0"
  using roundEven_int [of 0] by simp

lemma roundEven_le_ceiling: "roundEven x \<le> \<lceil>x\<rceil>"
  unfolding roundEven_def Let_def by (auto simp: ceiling_altdef) 

lemma roundEven_ge_floor: "\<lfloor>x\<rfloor> \<le> roundEven x"
  unfolding roundEven_def Let_def by auto


lemma toDouble_0 [simp]: "toDouble 0 = 0"
  by (simp add: toDouble_def)

lemma toDouble_minus: "toDouble (- x) = - toDouble x"
  by (simp add: toDouble_def Let_def)

lemma pow2_diff_int: "E \<le> e \<Longrightarrow> pow2 e / pow2 E = of_int (2 ^ nat (e - E))"
proof -
  assume "E \<le> e"
  then have "pow2 (e - E) = of_int (2 ^ nat (e - E))" by (intro pow2_nat) simp
  moreover have "pow2 e = pow2 (e - E) * pow2 E" using pow2_add [of "e - E" E] by simp
  ultimately show ?thesis by simp
qed

lemma toDouble_repr_lt:
  assumes "0 < m" and "m < 2 ^ 53" and "- 1074 \<le> e"
  shows "toDouble (of_int m * pow2 e) = of_int m * pow2 e"
proof -
  let ?a = "of_int m * pow2 e :: rat"
  let ?b = "bitLength m"
  note b = bitLength_bounds [OF assms(1)]
  have apos: "0 < ?a" using assms(1) by simp
  have lo: "pow2 (e + ?b - 1) \<le> ?a"
  proof -
    have "pow2 (?b - 1) = of_int (2 ^ nat (?b - 1))" using b by (intro pow2_nat) simp
    also have "\<dots> \<le> of_int m" using b by (simp only: of_int_le_iff)
    finally have "pow2 (?b - 1) * pow2 e \<le> of_int m * pow2 e"
      by (intro mult_right_mono) simp_all
    then show ?thesis using pow2_add [of "?b - 1" e] by (simp add: algebra_simps)
  qed
  have hi: "?a < pow2 (e + ?b - 1 + 1)"
  proof -
    have "(of_int m :: rat) < of_int (2 ^ nat ?b)" using b by (simp only: of_int_less_iff)
    also have "\<dots> = pow2 ?b" using b by (intro pow2_nat [symmetric]) simp
    finally have "of_int m * pow2 e < pow2 ?b * pow2 e"
      by (intro mult_strict_right_mono) simp_all
    then show ?thesis using pow2_add [of ?b e] by (simp add: algebra_simps)
  qed
  have k: "ilog2 ?a = e + ?b - 1" using ilog2_unique [OF lo hi] .
  have b53: "?b \<le> 53"
  proof (rule ccontr)
    assume "\<not> ?b \<le> 53"
    then have "53 \<le> nat (?b - 1)" by simp
    then have "(2::int) ^ 53 \<le> 2 ^ nat (?b - 1)" by (intro power_increasing) simp_all
    then show False using b assms(2) by linarith
  qed
  let ?E = "max (e + ?b - 1 - 52) (- 1074)"
  have E: "?E \<le> e" using b53 assms(3) by simp
  have "?a / pow2 ?E = of_int m * (pow2 e / pow2 ?E)" by simp
  then have q: "?a / pow2 ?E = of_int (m * 2 ^ nat (e - ?E))"
    unfolding pow2_diff_int [OF E] by simp
  have r: "roundEven (?a / pow2 ?E) = m * 2 ^ nat (e - ?E)"
    unfolding q by (rule roundEven_int)
  have "toDouble ?a = of_int (roundEven (?a / pow2 ?E)) * pow2 ?E"
    using apos k by (simp add: toDouble_def Let_def abs_of_pos)
  also have "\<dots> = (?a / pow2 ?E) * pow2 ?E" unfolding r unfolding q ..
  also have "\<dots> = ?a" by simp
  finally show ?thesis .
qed

lemma toDouble_repr:
  assumes "0 \<le> m" and "m \<le> 2 ^ 53" and "- 1074 \<le> e"
  shows "toDouble (of_int m * pow2 e) = of_int m * pow2 e"
proof -
  consider "m = 0" | "0 < m" "m < 2 ^ 53" | "m = 2 ^ 53" using assms by linarith
  then show ?thesis
  proof cases
    case 1
    then show ?thesis by simp
  next
    case 2
    then show ?thesis using toDouble_repr_lt assms(3) by blast
  next
    case 3
    have "pow2 (e + 53) = pow2 53 * pow2 e" using pow2_add [of 53 e] by (simp add: add.commute)
    moreover have "pow2 53 = of_int (2 ^ 53)" using pow2_nat [of 53] by simp
    ultimately have e: "of_int m * pow2 e = of_int 1 * pow2 (e + 53)" using 3 by simp
    show ?thesis unfolding e using toDouble_repr_lt [of 1 "e + 53"] assms(3) by simp
  qed
qed

lemma toDouble_form:
  assumes "0 < x"
  shows "\<exists>m. 0 \<le> m \<and> m \<le> 2 ^ 53
           \<and> toDouble x = of_int m * pow2 (max (ilog2 x - 52) (- 1074))"
proof -
  let ?k = "ilog2 x"
  let ?E = "max (?k - 52) (- 1074)"
  let ?m = "roundEven (x / pow2 ?E)"
  note b = ilog2_bounds [OF assms]
  have t: "toDouble x = of_int ?m * pow2 ?E"
    using assms by (simp add: toDouble_def Let_def abs_of_pos)
  have "0 \<le> x / pow2 ?E" using assms by simp
  then have "0 \<le> \<lfloor>x / pow2 ?E\<rfloor>" by simp
  then have m0: "0 \<le> ?m" using roundEven_ge_floor [of "x / pow2 ?E"] by linarith
  have "x < pow2 (?k + 1)" using b by simp
  also have "\<dots> = pow2 53 * pow2 (?k - 52)"
    using pow2_add [of 53 "?k - 52"] by (simp add: algebra_simps)
  also have "\<dots> \<le> pow2 53 * pow2 ?E" by (intro mult_left_mono pow2_mono) simp_all
  finally have "x / pow2 ?E < pow2 53" by (simp add: field_simps)
  moreover have "pow2 53 = of_int (2 ^ 53)" using pow2_nat [of 53] by simp
  ultimately have "x / pow2 ?E \<le> of_int (2 ^ 53)" by simp
  then have "\<lceil>x / pow2 ?E\<rceil> \<le> 2 ^ 53" by (simp only: ceiling_le_iff)
  then have m1: "?m \<le> 2 ^ 53" using roundEven_le_ceiling [of "x / pow2 ?E"] by linarith
  show ?thesis using t m0 m1 by blast
qed

lemma toDouble_idem_pos: "0 < x \<Longrightarrow> toDouble (toDouble x) = toDouble x"
proof -
  assume "0 < x"
  from toDouble_form [OF this] obtain m where
    m: "0 \<le> m" "m \<le> 2 ^ 53" "toDouble x = of_int m * pow2 (max (ilog2 x - 52) (- 1074))"
    by blast
  show ?thesis unfolding m(3) using m(1,2) by (intro toDouble_repr) simp_all
qed

lemma toDouble_idem [simp]: "toDouble (toDouble x) = toDouble x"
proof -
  consider "x = 0" | "0 < x" | "x < 0" by linarith
  then show ?thesis
  proof cases
    case 1
    then show ?thesis by simp
  next
    case 2
    then show ?thesis by (rule toDouble_idem_pos)
  next
    case 3
    then have "toDouble (toDouble (- x)) = toDouble (- x)" by (intro toDouble_idem_pos) simp
    then show ?thesis by (simp add: toDouble_minus)
  qed
qed

lemma toDouble_of_int: "\<bar>n\<bar> \<le> 2 ^ 53 \<Longrightarrow> toDouble (of_int n) = of_int n"
proof -
  assume a: "\<bar>n\<bar> \<le> 2 ^ 53"
  have p: "\<And>m. 0 \<le> m \<Longrightarrow> m \<le> 2 ^ 53 \<Longrightarrow> toDouble (of_int m) = of_int m"
    using toDouble_repr [of _ 0] by simp
  show ?thesis
  proof (cases "0 \<le> n")
    case True
    then show ?thesis using a p by simp
  next
    case False
    then have "toDouble (of_int (- n)) = of_int (- n)" using a by (intro p) simp_all
    then show ?thesis using toDouble_minus [of "of_int n"] by simp
  qed
qed

lemma toDouble_nonneg: "0 \<le> x \<Longrightarrow> 0 \<le> toDouble x"
proof -
  assume "0 \<le> x"
  then consider "x = 0" | "0 < x" by linarith
  then show ?thesis
  proof cases
    case 1
    then show ?thesis by simp
  next
    case 2
    from toDouble_form [OF this] obtain m where
      "0 \<le> m" "toDouble x = of_int m * pow2 (max (ilog2 x - 52) (- 1074))" by blast
    then show ?thesis by simp
  qed
qed

lemma toDouble_nonpos: "x \<le> 0 \<Longrightarrow> toDouble x \<le> 0"
  using toDouble_nonneg [of "- x"] by (simp add: toDouble_minus)

lemma toDouble_ge_1: 
  assumes "1 \<le> x"
  shows "1 \<le> toDouble x"
proof -
  have pos: "0 < x" using assms by simp
  note b = ilog2_bounds [OF pos]
  let ?k = "ilog2 x"
  have k0: "0 \<le> ?k"
  proof (rule ccontr)
    assume "\<not> 0 \<le> ?k"
    then have "pow2 (?k + 1) \<le> pow2 0" by (intro pow2_mono) simp
    then show False using b assms by simp
  qed
  then have E: "max (?k - 52) (- 1074) = ?k - 52" by simp
  have t: "toDouble x = of_int (roundEven (x / pow2 (?k - 52))) * pow2 (?k - 52)"
    using pos E by (simp add: toDouble_def Let_def abs_of_pos)
  have "pow2 ?k = pow2 52 * pow2 (?k - 52)" using pow2_add [of 52 "?k - 52"] by simp
  then have "pow2 52 * pow2 (?k - 52) \<le> x" using b by simp
  then have "pow2 52 \<le> x / pow2 (?k - 52)" by (simp add: field_simps)
  moreover have "pow2 52 = of_int (2 ^ 52)" using pow2_nat [of 52] by simp
  ultimately have "of_int (2 ^ 52) \<le> x / pow2 (?k - 52)" by simp
  then have "2 ^ 52 \<le> \<lfloor>x / pow2 (?k - 52)\<rfloor>" by (simp only: le_floor_iff)
  then have "2 ^ 52 \<le> roundEven (x / pow2 (?k - 52))"
    using roundEven_ge_floor [of "x / pow2 (?k - 52)"] by linarith
  then have "(of_int (2 ^ 52) :: rat) \<le> of_int (roundEven (x / pow2 (?k - 52)))"
    by (simp only: of_int_le_iff)
  then have "pow2 52 * pow2 (?k - 52) \<le> toDouble x"
    unfolding t \<open>pow2 52 = of_int (2 ^ 52)\<close> by (intro mult_right_mono) simp_all
  then have "pow2 ?k \<le> toDouble x" using \<open>pow2 ?k = pow2 52 * pow2 (?k - 52)\<close> by simp
  moreover have "pow2 0 \<le> pow2 ?k" using k0 by (intro pow2_mono)
  ultimately show ?thesis by simp
qed

text \<open>A double that is at least 1 is a multiple of 2^-52.\<close>

lemma double_grid:
  assumes "toDouble c = c" and "1 \<le> c"
  shows "\<exists>N. 0 < N \<and> c = of_int N * pow2 (- 52)"
proof -
  have pos: "0 < c" using assms(2) by simp
  note b = ilog2_bounds [OF pos]
  let ?k = "ilog2 c"
  have k0: "0 \<le> ?k"
  proof (rule ccontr)
    assume "\<not> 0 \<le> ?k"
    then have "pow2 (?k + 1) \<le> pow2 0" by (intro pow2_mono) simp
    then show False using b assms by simp
  qed
  then have E: "max (?k - 52) (- 1074) = ?k - 52" by simp
  from toDouble_form [OF pos] obtain m where
    m: "0 \<le> m" "toDouble c = of_int m * pow2 (?k - 52)" unfolding E by blast
  have "pow2 (?k - 52) = pow2 ?k * pow2 (- 52)" using pow2_add [of ?k "- 52"] by simp
  moreover have "pow2 ?k = of_int (2 ^ nat ?k)" using k0 by (rule pow2_nat)
  ultimately have "c = of_int (m * 2 ^ nat ?k) * pow2 (- 52)" using m(2) assms(1) by simp
  moreover have "0 < m * 2 ^ nat ?k"
  proof (rule ccontr)
    assume "\<not> 0 < m * 2 ^ nat ?k"
    then have "m = 0" using m(1) by (simp add: zero_less_mult_iff)
    then show False using m(2) assms pos by simp
  qed
  ultimately show ?thesis by blast
qed

text \<open>The test of the throttle is exact: for doubles c and l, with l zero or at least 1,
  the rounded difference reaches 1 exactly when the difference does.\<close>

lemma throttle_test_exact:
  assumes c: "toDouble c = c" and l: "toDouble l = l" and l01: "l = 0 \<or> 1 \<le> l"
  shows "1 \<le> toDouble (c - l) \<longleftrightarrow> l + 1 \<le> c"
proof
  assume "l + 1 \<le> c"
  then have "1 \<le> c - l" by simp
  then show "1 \<le> toDouble (c - l)" by (rule toDouble_ge_1)
next
  assume t: "1 \<le> toDouble (c - l)"
  show "l + 1 \<le> c"
  proof (rule ccontr)
    assume n: "\<not> l + 1 \<le> c"
    show False
    proof (cases "l = 0")
      case True
      then show ?thesis using t n c by simp
    next
      case False
      then have l1: "1 \<le> l" using l01 by simp
      show ?thesis
      proof (cases "c \<le> l")
        case True
        then have "toDouble (c - l) \<le> 0" by (intro toDouble_nonpos) simp
        then show ?thesis using t by simp
      next
        case False
        then have c1: "1 \<le> c" using l1 by simp
        from double_grid [OF c c1] obtain Nc where Nc: "c = of_int Nc * pow2 (- 52)" by blast
        from double_grid [OF l l1] obtain Nl where Nl: "l = of_int Nl * pow2 (- 52)" by blast
        have d: "c - l = of_int (Nc - Nl) * pow2 (- 52)" using Nc Nl by (simp add: algebra_simps)
        have p0: "0 < Nc - Nl"
        proof -
          have "0 < of_int (Nc - Nl) * pow2 (- 52)" using False d by simp
          then have "(0::rat) < of_int (Nc - Nl)" by (simp add: zero_less_mult_iff)
          then show ?thesis by (simp only: of_int_0_less_iff)
        qed
        have "of_int (Nc - Nl) * pow2 (- 52) < 1" using n d by simp
        moreover have "pow2 (- 52) * pow2 52 = 1" using pow2_add [of "- 52" 52] by simp
        ultimately have "of_int (Nc - Nl) * pow2 (- 52) < pow2 52 * pow2 (- 52)" by (simp add: mult.commute)
        then have "of_int (Nc - Nl) < pow2 52" by (simp only: mult_less_cancel_right_pos pow2_pos)
        moreover have "pow2 52 = of_int (2 ^ 52)" using pow2_nat [of 52] by simp
        ultimately have "(of_int (Nc - Nl) :: rat) < of_int (2 ^ 52)" by simp
        then have "Nc - Nl < 2 ^ 52" by (simp only: of_int_less_iff)
        then have "toDouble (c - l) = c - l"
          unfolding d using p0 by (intro toDouble_repr) simp_all
        then show ?thesis using t n by simp
      qed
    qed
  qed
qed

lemma toDouble_100 [simp]: "toDouble 100 = 100"
  using toDouble_of_int [of 100] by simp

lemma jmin_100_double: "jmin (jmul a b) (Num 100) = Num r \<Longrightarrow> toDouble r = r"
  by (cases a; cases b) (auto simp: min_def split: if_splits)

section \<open>Progress throttling\<close>

lemma jobCurrentPercent_double: "jobCurrentPercent B d t = Num r \<Longrightarrow> toDouble r = r"
  unfolding jobCurrentPercent_def by (rule jmin_100_double)

text \<open>The handler with its test read exactly: \<open>lastPercent\<close> is 0 or an earlier percent,
  which is a double and at least 1.\<close>

lemma fjobOnProgress_exact:
  assumes "toDouble l = l" and "l = 0 \<or> 1 \<le> l"
  shows "fjobOnProgress B d p (Num l) =
     (if truthyNum d \<and> truthyStr (p_timemark p)
      then (case jobCurrentPercent B d (bang (p_timemark p)) of
              NaN \<Rightarrow> ([], Num l)
            | Num c \<Rightarrow> if l + 1 \<le> c then ([p\<lparr>p_percent := toFixed2 (Num c)\<rparr>], Num c)
                       else ([], Num l))
      else ([], Num l))"
proof (cases "jobCurrentPercent B d (bang (p_timemark p))")
  case NaN
  then show ?thesis by (simp add: fjobOnProgress_def Let_def)
next
  case (Num c)
  have "toDouble c = c" using jobCurrentPercent_double [OF Num] .
  from throttle_test_exact [OF this assms]
  show ?thesis using Num by (simp add: fjobOnProgress_def Let_def)
qed

lemma fjobProgressFrom_spec:
  "toDouble l = l \<Longrightarrow> l = 0 \<or> 1 \<le> l \<Longrightarrow>
     fjobProgressFrom B d (Num l) ps = throttleSpec B d l ps"
proof (induction ps arbitrary: l)
  case Nil
  then show ?case by simp
next
  case (Cons p ps)
  note e = fjobOnProgress_exact [OF Cons.prems, of B d p]
  show ?case
  proof (cases "truthyNum d \<and> truthyStr (p_timemark p)")
    case False
    then show ?thesis using e Cons.IH [OF Cons.prems] by auto
  next
    case True
    show ?thesis
    proof (cases "jobCurrentPercent B d (bang (p_timemark p))")
      case NaN
      then show ?thesis using e True Cons.IH [OF Cons.prems] by simp
    next
      case (Num c)
      have dc: "toDouble c = c" using jobCurrentPercent_double [OF Num] .
      show ?thesis
      proof (cases "l + 1 \<le> c")
        case le: True
        have "c = 0 \<or> 1 \<le> c" using le Cons.prems(2) by auto
        from Cons.IH [OF dc this] show ?thesis using e True Num le by simp
      next
        case le: False
        then show ?thesis using e True Num Cons.IH [OF Cons.prems] by simp
      qed
    qed
  qed
qed

lemma throttleSpec_needs_duration: "throttleSpec B d l ps \<noteq> [] \<Longrightarrow> truthyNum d"
  by (induction ps arbitrary: l) (auto split: if_splits jsnum.splits)

lemma matchAt_nonempty: "matchAt pre cls post s = Some cap \<Longrightarrow> cap \<noteq> []"
  by (auto simp: matchAt_def Let_def split: option.splits if_splits)

lemma regexExec_nonempty: "regexExec pre cls post s = Some cap \<Longrightarrow> cap \<noteq> []"
  by (induction s) (auto dest: matchAt_nonempty split: option.splits)

lemma truthy_regexExec:
  "truthyStr (regexExec pre cls post s) \<longleftrightarrow> regexExec pre cls post s \<noteq> None"
  by (cases "regexExec pre cls post s") (auto dest: regexExec_nonempty)

lemma procStderr_emits_iff:
  "fst (procStderr buf j) \<noteq> [] \<longleftrightarrow>
     (regexExec ''frame='' isDigit [] buf \<noteq> None
      \<or> regexExec ''fps='' isDigitDot [] buf \<noteq> None
      \<or> regexExec ''bitrate='' isDigitDot ''kbits/s'' buf \<noteq> None
      \<or> regexExec ''time='' isTimeChar [] buf \<noteq> None)"
  by (simp add: procStderr_def parseProgress_def Let_def truthy_regexExec split: option.splits)

lemma procStderr_percent_zero:
  "j_durationSec j = None \<Longrightarrow> a \<in> set (fst (procStderr buf j)) \<Longrightarrow>
     \<exists>s. a = Emit (EvProgress s) \<and> p_percent s = Num 0"
  by (auto simp: procStderr_def dest: parseProgress_no_duration split: option.splits)

text \<open>
  C2, as the code has it. In the fluent-ffmpeg Job the samples a run emits are exactly
  those the throttle of the spec lets through: a progress object gives a sample only
  when the duration is available and the percent computed from it is at least one whole
  point above the percent computed at the last emission (0 before the first), and the
  sample reports that percent rounded to two digits. The spawn-based Job has neither
  condition: in every state a newly constructed job can reach, its handler emits a
  sample for a chunk of diagnostic output exactly when one of the four patterns matches
  in it, and that sample has percent 0.
\<close>

theorem progress_throttled_fluent_only:
  assumes "newJob found fresh opts path = Inr j"
  shows "fjobProgressRun B d ps = throttleSpec B d 0 ps
       \<and> (fjobProgressRun B d ps \<noteq> [] \<longrightarrow> truthyNum d)
       \<and> (fst (procStderr buf (snd (jobRun ins j))) \<noteq> [] \<longleftrightarrow>
            (regexExec ''frame='' isDigit [] buf \<noteq> None
             \<or> regexExec ''fps='' isDigitDot [] buf \<noteq> None
             \<or> regexExec ''bitrate='' isDigitDot ''kbits/s'' buf \<noteq> None
             \<or> regexExec ''time='' isTimeChar [] buf \<noteq> None))
       \<and> (\<forall>a\<in>set (fst (procStderr buf (snd (jobRun ins j)))).
             \<exists>s. a = Emit (EvProgress s) \<and> p_percent s = Num 0)"
proof -
  have r: "fjobProgressRun B d ps = throttleSpec B d 0 ps"
    unfolding fjobProgressRun_def by (rule fjobProgressFrom_spec) simp_all
  have n: "fjobProgressRun B d ps \<noteq> [] \<longrightarrow> truthyNum d"
    unfolding r using throttleSpec_needs_duration by blast
  have "j_durationSec j = None" using newJob_fields [OF assms] by simp
  then have "j_durationSec (snd (jobRun ins j)) = None"
    using jobRun_no_duration [of j ins] by simp
  then have z: "\<forall>a\<in>set (fst (procStderr buf (snd (jobRun ins j)))).
             \<exists>s. a = Emit (EvProgress s) \<and> p_percent s = Num 0"
    using procStderr_percent_zero by blast
  show ?thesis using r n z procStderr_emits_iff [of buf "snd (jobRun ins j)"] by blast
qed

lemma sampleTimemarks_run:
  "fjobProgressRun builtinsDec (Num 200) sampleTimemarks
     = [(timemarkOnly ''00:00:02.00'')\<lparr>p_percent := Num 1\<rparr>,
        (timemarkOnly ''00:00:05.01'')\<lparr>p_percent := Num (5 / 2)\<rparr>]"
  by code_simp

text \<open>The theorem on a 200 second input with timemarks at 1, 2, 3 and 5.01 seconds: two
  samples come out, at 2 seconds with 1 percent and at 5.01 seconds, where the percent
  computed is the double below 2.505 and the sample reports 2.5; and on the chunk
  \<open>frame=1\<close> that reaches the spawn-based job after its start.\<close>

theorem progress_throttled_fluent_only_witness:
  "newJob True ''job-1'' convertNoOutput ''ffmpeg'' = Inr freshJob
   \<and> throttleSpec builtinsDec (Num 200) 0 sampleTimemarks
       = [(timemarkOnly ''00:00:02.00'')\<lparr>p_percent := Num 1\<rparr>,
          (timemarkOnly ''00:00:05.01'')\<lparr>p_percent := Num (5 / 2)\<rparr>]
   \<and> truthyNum (Num 200)
   \<and> fst (procStderr ''frame=1'' (snd (jobRun [CallStart None] freshJob)))
       = [Emit (EvProgress frameOnly)]
   \<and> p_percent frameOnly = Num 0
   \<and> regexExec ''frame='' isDigit [] ''frame=1'' \<noteq> None"
proof -
  have e: "regexExec ''frame='' isDigit [] ''frame=1'' \<noteq> None"
    by code_simp
  have f: "fst (procStderr ''frame=1'' (snd (jobRun [CallStart None] freshJob)))
             = [Emit (EvProgress frameOnly)]"
    apply (simp add: start_freshJob procStderr_def frameOnly_def)
    apply (simp add: freshJob_def)
    apply code_simp
    done
  show ?thesis
    using progress_throttled_fluent_only
            [OF newJob_fresh, of builtinsDec "Num 200" sampleTimemarks "''frame=1''"
               "[CallStart None]"]
          newJob_fresh sampleTimemarks_run e f
    by (simp add: frameOnly_def)
qed

text \<open>Rounding decides: at 0.29 of 29 seconds the percent computed is the double just
  below 1, and nothing is emitted.\<close>

lemma fjob_silent_below_one:
  "jobCurrentPercent builtinsDec (Num 29) ''00:00:00.29''
     = Num (9007199254740991 / 9007199254740992)
   \<and> fjobProgressRun builtinsDec (Num 29) [timemarkOnly ''00:00:00.29''] = []"
  by code_simp

text \<open>
  C2 as stated fails on the spawn-based Job: with no duration estimate at all, two equal
  chunks \<open>frame=1\<close> give two progress notifications, both with percent 0.
\<close>

theorem progress_unthrottled_counterexample:
  "j_durationSec freshJob = None
   \<and> fst (jobRun [CallStart None, ProcStderr ''frame=1'', ProcStderr ''frame=1''] freshJob)
       = [Emit (EvStart ''ffmpeg -i in.mp4 -y output.mp4''), Emit (EvState Running),
          Spawn ''ffmpeg'' [''-i'', ''in.mp4'', ''-y'', ''output.mp4''],
          Emit (EvProgress frameOnly), Emit (EvProgress frameOnly)]"
  apply (simp add: start_freshJob procStderr_def frameOnly_def)
  apply (simp add: freshJob_def)
  apply code_simp
  done

section \<open>Properties of the Pipeline\<close>

lemma validateOutputPaths_error_kind:
  "validateOutputPaths ops steps outs fs = (fs', Some e) \<Longrightarrow>
     e_code e = ''VALIDATION_ERROR'' \<and> e_name e = ''MediaXValidationError''"
proof (induction steps arbitrary: outs fs)
  case Nil
  then show ?case by simp
next
  case (Cons step rest)
  then show ?case
    by (auto simp: Let_def mkValidationError_def mkMediaXError_def
             split: if_splits option.splits)
qed

lemma validateOutputPaths_seen:
  "s \<in> set steps \<Longrightarrow> truthyStr (o_output s) \<Longrightarrow> bang (o_output s) \<in> outs \<Longrightarrow>
     snd (validateOutputPaths ops steps outs fs) \<noteq> None"
proof (induction steps arbitrary: outs fs)
  case Nil
  then show ?case by simp
next
  case (Cons step rest)
  then show ?case
    by (auto simp: Let_def split: if_splits option.splits)
qed

lemma validateOutputPaths_dup:
  "i < j \<Longrightarrow> j < length steps \<Longrightarrow> o_output (steps ! i) = o_output (steps ! j) \<Longrightarrow>
   truthyStr (o_output (steps ! i)) \<Longrightarrow>
     snd (validateOutputPaths ops steps outs fs) \<noteq> None"
proof (induction steps arbitrary: i j outs fs)
  case Nil
  then show ?case by simp
next
  case (Cons step rest)
  obtain j' where j': "j = Suc j'" using Cons.prems(1) by (cases j) auto
  show ?case
  proof (cases i)
    case 0
    have mem: "rest ! j' \<in> set rest" using Cons.prems(2) j' by simp
    have same: "o_output (rest ! j') = o_output step" "truthyStr (o_output step)"
      using Cons.prems 0 j' by simp_all
    have "\<And>fs0. snd (validateOutputPaths ops rest (insert (bang (o_output step)) outs) fs0) \<noteq> None"
      using validateOutputPaths_seen [OF mem, of "insert (bang (o_output step)) outs"] same
      by simp
    then show ?thesis using same by (auto simp: Let_def split: option.splits)
  next
    case (Suc i')
    have "\<And>outs0 fs0. snd (validateOutputPaths ops rest outs0 fs0) \<noteq> None"
      using Cons.IH [of i' j'] Cons.prems Suc j' by simp
    then show ?thesis by (auto simp: Let_def split: option.splits)
  qed
qed

lemma validateStepSequence_warnings:
  "e \<in> set (validateStepSequence steps) \<Longrightarrow> \<exists>m t. e = PWarning m t"
  by (induction steps rule: validateStepSequence.induct) (auto split: if_splits)

lemma validatePipeline_error_kind:
  "validatePipeline ops fs pl = (w, fs', Some e) \<Longrightarrow>
     e_code e = ''VALIDATION_ERROR'' \<and> (\<forall>x\<in>set w. \<exists>m t. x = PWarning m t)"
  by (auto simp: validatePipeline_def mkValidationError_def mkMediaXError_def
           dest: validateOutputPaths_error_kind validateStepSequence_warnings
           split: if_splits prod.splits)

lemma validatePipeline_dup:
  assumes "i < j" "j < length (pl_steps pl)"
      and "o_output (pl_steps pl ! i) = o_output (pl_steps pl ! j)"
      and "truthyStr (o_output (pl_steps pl ! i))"
  shows "snd (snd (validatePipeline ops fs pl)) \<noteq> None"
  using validateOutputPaths_dup [OF assms, of ops "{}" fs]
  by (auto simp: validatePipeline_def split: prod.splits)

lemma createdJobs_warnings:
  "\<forall>x\<in>set w. \<exists>m t. x = PWarning m t \<Longrightarrow> createdJobs (w @ [PError err k]) = []"
  by (induction w) auto

text \<open>
  C7: when two distinct steps of a workflow that is not already running carry the same
  output path (a non-empty string; the code treats an empty output as none), \<open>run\<close>
  fails the pre-flight validation: after at most some warnings it reports one error with
  code VALIDATION_ERROR and index 0, no job is created, the steps are untouched and the
  workflow is not running.
\<close>

theorem run_duplicate_outputs_rejected:
  assumes "i < j" "j < length (pl_steps pl)"
      and "o_output (pl_steps pl ! i) = o_output (pl_steps pl ! j)"
      and "truthyStr (o_output (pl_steps pl ! i))"
      and "\<not> pl_isRunning pl"
  shows "\<exists>w err fs' pl'.
           run B ops envs inp fs pl = (w @ [PError err 0], fs', pl')
           \<and> e_code err = ''VALIDATION_ERROR''
           \<and> (\<forall>x\<in>set w. \<exists>m t. x = PWarning m t)
           \<and> createdJobs (w @ [PError err 0]) = []
           \<and> pl_steps pl' = pl_steps pl \<and> \<not> pl_isRunning pl'"
proof -
  define pl0 where "pl0 = (if truthyStr inp then pl\<lparr>pl_initialInput := bang inp\<rparr> else pl)"
  have st: "pl_steps pl0 = pl_steps pl" "\<not> pl_isRunning pl0"
    using assms(5) by (simp_all add: pl0_def)
  obtain w fs' r where v: "validatePipeline ops fs pl0 = (w, fs', r)"
    by (cases "validatePipeline ops fs pl0")
  have "r \<noteq> None"
    using validatePipeline_dup [of i j pl0 ops fs] assms(1-4) st v by simp
  then obtain e where e: "r = Some e" by auto
  have k: "e_code e = ''VALIDATION_ERROR'' \<and> (\<forall>x\<in>set w. \<exists>m t. x = PWarning m t)"
    using validatePipeline_error_kind [of ops fs pl0 w fs' e] v e by simp
  have "run B ops envs inp fs pl = (w @ [PError e 0], fs', pl0)"
    using v e st by (simp add: run_def pl0_def [symmetric] enhanceError_def Let_def)
  then show ?thesis using k st createdJobs_warnings [of w e 0] by blast
qed

text \<open>The theorem on a workflow whose convert and compress steps both write \<open>out.mkv\<close>.\<close>

theorem run_duplicate_outputs_rejected_witness:
  "(0::nat) < 1 \<and> 1 < length (pl_steps dupPipeline)
   \<and> o_output (pl_steps dupPipeline ! 0) = o_output (pl_steps dupPipeline ! 1)
   \<and> truthyStr (o_output (pl_steps dupPipeline ! 0))
   \<and> \<not> pl_isRunning dupPipeline
   \<and> run builtinsDec listFs (\<lambda>i. quietEnv) None sampleFs dupPipeline
       = ([PError (mkValidationError ''Duplicate output path: out.mkv'' (Some Compress)) 0],
          sampleFs, dupPipeline)
   \<and> (\<exists>w err fs' pl'.
           run builtinsDec listFs (\<lambda>i. quietEnv) None sampleFs dupPipeline
             = (w @ [PError err 0], fs', pl')
           \<and> e_code err = ''VALIDATION_ERROR''
           \<and> createdJobs (w @ [PError err 0]) = []
           \<and> pl_steps pl' = pl_steps dupPipeline \<and> \<not> pl_isRunning pl')"
proof -
  have h: "(0::nat) < 1" "1 < length (pl_steps dupPipeline)"
    "o_output (pl_steps dupPipeline ! 0) = o_output (pl_steps dupPipeline ! 1)"
    "truthyStr (o_output (pl_steps dupPipeline ! 0))" "\<not> pl_isRunning dupPipeline"
    by (simp_all add: dupPipeline_def emptyOptions_def)
  have r: "run builtinsDec listFs (\<lambda>i. quietEnv) None sampleFs dupPipeline
       = ([PError (mkValidationError ''Duplicate output path: out.mkv'' (Some Compress)) 0],
          sampleFs, dupPipeline)"
    by code_simp
  show ?thesis
    using run_duplicate_outputs_rejected [OF h, of builtinsDec listFs "\<lambda>i. quietEnv" None sampleFs]
          h r
    by auto
qed

subsection \<open>Input wiring\<close>

lemma nthOpt_eq: "nthOpt xs n = (if n < length xs then Some (xs ! n) else None)"
  by (induction xs n rule: nthOpt.induct) auto

lemma take_Suc_eq_D:
  assumes "take (Suc m) S = take (Suc m) S'"
  shows "take m S = take m S' \<and> (m < length S \<longleftrightarrow> m < length S')
         \<and> (m < length S \<longrightarrow> S ! m = S' ! m)"
proof -
  have a: "take m (take (Suc m) S) = take m (take (Suc m) S')" using assms by simp
  have l: "length (take (Suc m) S) = length (take (Suc m) S')" using assms by simp
  have n: "m < length S \<Longrightarrow> take (Suc m) S ! m = take (Suc m) S' ! m" using assms by simp
  show ?thesis using a l n by (auto simp: min_def split: if_splits)
qed

lemma resolveLoop_take:
  "take m S = take m S' \<Longrightarrow> resolveLoop S init m = resolveLoop S' init m"
proof (induction m)
  case 0
  then show ?case by simp
next
  case (Suc m)
  from take_Suc_eq_D [OF Suc.prems]
  have t: "take m S = take m S'" and n: "nthOpt S m = nthOpt S' m"
    by (auto simp: nthOpt_eq)
  show ?case using Suc.IH [OF t] n by (simp split: option.splits)
qed

lemma resolveLoop_nearest:
  "resolveLoop S init m = Inr x \<Longrightarrow> m \<le> length S \<Longrightarrow>
     (\<exists>j<m. o_type (S ! j) \<in> VIDEO_OPERATIONS
           \<and> (\<forall>k. j < k \<and> k < m \<longrightarrow> o_type (S ! k) \<notin> VIDEO_OPERATIONS)
           \<and> x = bang (o_output (S ! j)))
     \<or> ((\<forall>j<m. o_type (S ! j) \<notin> VIDEO_OPERATIONS) \<and> x = init)"
proof (induction m)
  case 0
  then show ?case by simp
next
  case (Suc m)
  have lt: "m < length S" using Suc.prems(2) by simp
  show ?case
  proof (cases "o_type (S ! m) \<in> VIDEO_OPERATIONS")
    case True
    then have "x = bang (o_output (S ! m))" using Suc.prems(1) lt by (simp add: nthOpt_eq)
    then have "m < Suc m \<and> o_type (S ! m) \<in> VIDEO_OPERATIONS
               \<and> (\<forall>k. m < k \<and> k < Suc m \<longrightarrow> o_type (S ! k) \<notin> VIDEO_OPERATIONS)
               \<and> x = bang (o_output (S ! m))"
      using True by auto
    then show ?thesis by blast
  next
    case False
    then have r: "resolveLoop S init m = Inr x" using Suc.prems(1) lt by (simp add: nthOpt_eq)
    from Suc.IH [OF r] lt
    consider (found) j where "j < m" "o_type (S ! j) \<in> VIDEO_OPERATIONS"
          "\<forall>k. j < k \<and> k < m \<longrightarrow> o_type (S ! k) \<notin> VIDEO_OPERATIONS" "x = bang (o_output (S ! j))"
      | (none) "\<forall>j<m. o_type (S ! j) \<notin> VIDEO_OPERATIONS" "x = init"
      by auto
    then show ?thesis
    proof cases
      case found
      have "\<forall>k. j < k \<and> k < Suc m \<longrightarrow> o_type (S ! k) \<notin> VIDEO_OPERATIONS"
        using found(3) False by (auto simp: less_Suc_eq)
      then show ?thesis using found by (intro disjI1 exI [of _ j]) auto
    next
      case none
      have "\<forall>j<Suc m. o_type (S ! j) \<notin> VIDEO_OPERATIONS"
        using none(1) False by (auto simp: less_Suc_eq)
      then show ?thesis using none(2) by blast
    qed
  qed
qed

lemma createdJobs_append: "createdJobs (a @ b) = createdJobs a @ createdJobs b"
  by (induction a rule: createdJobs.induct) auto

lemma handleJobProgress_created: "createdJobs (handleJobProgress B p d i T t0 now lp) = []"
  by (simp add: handleJobProgress_def Let_def)

lemma jobEvents_facts:
  "jobEvents B env i T es pl = (evs, pl') \<Longrightarrow> list_all keepsInput es \<Longrightarrow>
     pl_steps pl' = pl_steps pl \<and> pl_initialInput pl' = pl_initialInput pl
     \<and> createdJobs evs = []"
proof (induction es arbitrary: pl evs pl')
  case Nil
  then show ?case by simp
next
  case (Cons e es)
  have k: "list_all keepsInput es" using Cons.prems(2) by simp
  show ?case
  proof (cases e)
    case (SProgress p now)
    obtain b pl2 where r: "jobEvents B env i T es pl = (b, pl2)"
      by (cases "jobEvents B env i T es pl")
    show ?thesis
      using Cons.prems Cons.IH [OF r k] SProgress r
      by (auto simp: Let_def createdJobs_append handleJobProgress_created)
  next
    case SAbort
    obtain a pl1 where a: "abort pl = (a, pl1)" by (cases "abort pl")
    obtain b pl2 where r: "jobEvents B env i T es pl1 = (b, pl2)"
      by (cases "jobEvents B env i T es pl1")
    have a': "pl_steps pl1 = pl_steps pl \<and> pl_initialInput pl1 = pl_initialInput pl
              \<and> createdJobs a = []"
      using a by (auto simp: abort_def split: if_splits)
    show ?thesis
      using Cons.prems Cons.IH [OF r k] SAbort a r a'
      by (auto simp: createdJobs_append)
  next
    case (SRun inp)
    obtain a pl1 where a: "runAgain inp pl = (a, pl1)" by (cases "runAgain inp pl")
    obtain b pl2 where r: "jobEvents B env i T es pl1 = (b, pl2)"
      by (cases "jobEvents B env i T es pl1")
    have a': "pl_steps pl1 = pl_steps pl \<and> pl_initialInput pl1 = pl_initialInput pl
              \<and> createdJobs a = []"
      using a Cons.prems(2) SRun by (auto simp: runAgain_def Let_def split: if_splits)
    show ?thesis
      using Cons.prems Cons.IH [OF r k] SRun a r a'
      by (auto simp: createdJobs_append)
  qed
qed

lemma executeJob_facts:
  assumes "executeJob B env step i T pl = (evs, pl', r)"
      and "list_all keepsInput (se_events env)"
  shows "pl_steps pl' = pl_steps pl \<and> pl_initialInput pl' = pl_initialInput pl
         \<and> createdJobs evs = (if pl_aborted pl then [] else [step])"
proof (cases "pl_aborted pl")
  case True
  then show ?thesis using assms by (simp add: executeJob_def)
next
  case False
  obtain e1 pl1 where j: "jobEvents B env i T (se_events env) pl = (e1, pl1)"
    by (cases "jobEvents B env i T (se_events env) pl")
  show ?thesis
    using assms False j jobEvents_facts [OF j assms(2)]
    by (auto simp: executeJob_def Let_def createdJobs_append split: StepEnd.splits)
qed

lemma resolveJobInput_cong:
  assumes "take i (pl_steps pl') = take i (pl_steps pl)"
      and "pl_initialInput pl' = pl_initialInput pl" and "o_type step' = o_type step"
  shows "resolveJobInput pl' step' i lo = resolveJobInput pl step i lo"
proof -
  have "resolveLoop (pl_steps pl') (pl_initialInput pl') i
        = resolveLoop (pl_steps pl) (pl_initialInput pl) i"
    using resolveLoop_take [OF assms(1), of "pl_initialInput pl"] assms(2) by simp
  then show ?thesis by (simp only: resolveJobInput_def assms(3))
qed

lemma executeLoop_wiring:
  "executeLoop B envs T i lo pl = (evs, pl') \<Longrightarrow> T = length (pl_steps pl) \<Longrightarrow>
   \<forall>k. list_all keepsInput (se_events (envs k)) \<Longrightarrow>
     length (pl_steps pl') = T \<and> pl_initialInput pl' = pl_initialInput pl
     \<and> take i (pl_steps pl') = take i (pl_steps pl)
     \<and> map o_type (pl_steps pl') = map o_type (pl_steps pl)
     \<and> (\<exists>n. i + n \<le> max i T \<and> createdJobs evs = take n (drop i (pl_steps pl'))
            \<and> (\<forall>k<n.
                  resolveJobInput pl' (pl_steps pl' ! (i + k)) (i + k)
                    (if k = 0 then lo else bang (o_output (pl_steps pl' ! (i + k - 1))))
                  = Inr (o_input (pl_steps pl' ! (i + k)))))"
proof (induction "T - i" arbitrary: i lo pl evs pl')
  case 0
  then have "\<not> i < T" by simp
  then have "createdJobs evs = [] \<and> pl' = pl"
    using "0.prems"(1) by (subst (asm) executeLoop.simps) auto
  then show ?case using "0.prems"(2) by (auto intro: exI [of _ 0])
next
  case (Suc d)
  let ?S = "pl_steps pl"
  have iT: "i < T" using Suc.hyps(2) by simp
  have stop: "createdJobs evs = [] \<and> pl' = pl \<Longrightarrow> ?case"
    using Suc.prems(2) by (auto intro: exI [of _ 0])
  show ?case
  proof (cases "pl_aborted pl")
    case True
    then have "createdJobs evs = [] \<and> pl' = pl"
      using Suc.prems(1) by (subst (asm) executeLoop.simps) auto
    then show ?thesis by (rule stop)
  next
    case False
    have nth: "nthOpt ?S i = Some (?S ! i)" using iT Suc.prems(2) by (simp add: nthOpt_eq)
    show ?thesis
    proof (cases "resolveJobInput pl (?S ! i) i lo")
      case (Inl msg)
      then have "createdJobs evs = [] \<and> pl' = pl"
        using Suc.prems(1) iT False nth by (subst (asm) executeLoop.simps) auto
      then show ?thesis by (rule stop)
    next
      case (Inr inp)
      define step1 where "step1 = (?S ! i)\<lparr>o_input := inp\<rparr>"
      define step2 where "step2 = (if \<not> truthyStr (o_output step1)
                                then step1\<lparr>o_output :=
                                       Some (generateDefaultOutput (o_type step1) i
                                               (se_timestamp (envs i)))\<rparr>
                                else step1)"
      define pl1 where "pl1 = pl\<lparr>pl_steps := ?S[i := step2]\<rparr>"
      obtain e1 pl2 r where ej: "executeJob B (envs i) step2 i T pl1 = (e1, pl2, r)"
        by (cases "executeJob B (envs i) step2 i T pl1") auto
      have s2: "o_type step2 = o_type (?S ! i)" "o_input step2 = inp"
        by (simp_all add: step2_def step1_def)
      have f1: "pl_steps pl2 = ?S[i := step2]" "pl_initialInput pl2 = pl_initialInput pl"
               "createdJobs e1 = [step2]"
        using executeJob_facts [OF ej] Suc.prems(3) False by (simp_all add: pl1_def)
      have len2: "length (pl_steps pl2) = T" using f1 Suc.prems(2) by simp
      have at2: "pl_steps pl2 ! i = step2" using f1 iT Suc.prems(2) by simp
      have ty2: "map o_type (pl_steps pl2) = map o_type ?S"
        using f1(1) s2(1) iT Suc.prems(2) by (simp add: map_update list_update_same_conv)
      have tk2: "take i (pl_steps pl2) = take i ?S" using f1(1) by simp
      show ?thesis
      proof (cases r)
        case (Some err)
        have res: "evs = e1 @ [PError (enhanceError (MxError err) (- 1)) (- 1)]" "pl' = pl2"
          using Suc.prems(1) iT False nth Inr ej Some
          by (subst (asm) executeLoop.simps,
              simp add: Let_def step1_def [symmetric] step2_def [symmetric] pl1_def [symmetric])+
        have cj: "createdJobs evs = [step2]" using res f1 by (simp add: createdJobs_append)
        have dr: "take 1 (drop i (pl_steps pl2)) = [step2]"
          using at2 len2 iT by (simp add: Cons_nth_drop_Suc [symmetric])
        have rs: "resolveJobInput pl2 step2 i lo = Inr inp"
          using resolveJobInput_cong [OF tk2 f1(2) s2(1), of lo] Inr by simp
        have ex: "i + 1 \<le> max i T \<and> createdJobs evs = take 1 (drop i (pl_steps pl'))
            \<and> (\<forall>k<1.
                  resolveJobInput pl' (pl_steps pl' ! (i + k)) (i + k)
                    (if k = 0 then lo else bang (o_output (pl_steps pl' ! (i + k - 1))))
                  = Inr (o_input (pl_steps pl' ! (i + k))))"
          using res(2) cj dr rs at2 s2 iT by simp
        show ?thesis
          using res(2) len2 f1(2) tk2 ty2 ex by blast
      next
        case None
        obtain e2 pl3 where rec: "executeLoop B envs T (i + 1) (bang (o_output step2)) pl2 = (e2, pl3)"
          by (cases "executeLoop B envs T (i + 1) (bang (o_output step2)) pl2")
        have res: "evs = e1 @ e2" "pl' = pl3"
          using Suc.prems(1) iT False nth Inr ej None rec
          by (subst (asm) executeLoop.simps,
              simp add: Let_def step1_def [symmetric] step2_def [symmetric] pl1_def [symmetric])+
        have d: "d = T - (i + 1)" using Suc.hyps(2) by simp
        have ih0: "length (pl_steps pl3) = T" "pl_initialInput pl3 = pl_initialInput pl2"
           "take (i + 1) (pl_steps pl3) = take (i + 1) (pl_steps pl2)"
           "map o_type (pl_steps pl3) = map o_type (pl_steps pl2)"
          using Suc.hyps(1) [OF d rec _ Suc.prems(3)] len2 by simp_all
        obtain n where n: "i + 1 + n \<le> max (i + 1) T"
           "createdJobs e2 = take n (drop (i + 1) (pl_steps pl3))"
           "\<forall>k<n. resolveJobInput pl3 (pl_steps pl3 ! (i + 1 + k)) (i + 1 + k)
                   (if k = 0 then bang (o_output step2)
                    else bang (o_output (pl_steps pl3 ! (i + 1 + k - 1))))
                 = Inr (o_input (pl_steps pl3 ! (i + 1 + k)))"
          using Suc.hyps(1) [OF d rec _ Suc.prems(3)] len2 by auto
        from take_Suc_eq_D [of i "pl_steps pl3" "pl_steps pl2"] ih0(3)
        have tk3: "take i (pl_steps pl3) = take i (pl_steps pl2)"
          and at3: "pl_steps pl3 ! i = step2"
          using at2 len2 iT by auto
        have cj: "createdJobs evs = step2 # take n (drop (i + 1) (pl_steps pl3))"
          using res f1 n(2) by (simp add: createdJobs_append)
        have dr: "step2 # take n (drop (i + 1) (pl_steps pl3))
                  = take (Suc n) (drop i (pl_steps pl3))"
          using at3 ih0(1) iT by (simp add: Cons_nth_drop_Suc [symmetric])
        have rs0: "resolveJobInput pl3 step2 i lo = Inr inp"
        proof -
          have "take i (pl_steps pl3) = take i ?S" using tk3 tk2 by simp
          moreover have "pl_initialInput pl3 = pl_initialInput pl" using ih0(2) f1(2) by simp
          ultimately show ?thesis
            using resolveJobInput_cong [of i pl3 pl step2 "?S ! i" lo] s2(1) Inr by simp
        qed
        have all: "\<forall>k<Suc n.
           resolveJobInput pl3 (pl_steps pl3 ! (i + k)) (i + k)
             (if k = 0 then lo else bang (o_output (pl_steps pl3 ! (i + k - 1))))
           = Inr (o_input (pl_steps pl3 ! (i + k)))"
        proof (intro allI impI)
          fix k assume k: "k < Suc n"
          show "resolveJobInput pl3 (pl_steps pl3 ! (i + k)) (i + k)
             (if k = 0 then lo else bang (o_output (pl_steps pl3 ! (i + k - 1))))
           = Inr (o_input (pl_steps pl3 ! (i + k)))"
          proof (cases k)
            case 0
            then show ?thesis using rs0 at3 s2(2) by simp
          next
            case (Suc k')
            then have "k' < n" using k by simp
            with n(3) have "resolveJobInput pl3 (pl_steps pl3 ! (i + 1 + k')) (i + 1 + k')
                   (if k' = 0 then bang (o_output step2)
                    else bang (o_output (pl_steps pl3 ! (i + 1 + k' - 1))))
                 = Inr (o_input (pl_steps pl3 ! (i + 1 + k')))" by blast
            then show ?thesis using Suc at3 by (cases k') simp_all
          qed
        qed
        have bd: "i + Suc n \<le> max i T" using n(1) iT by simp
        have ex: "\<exists>m. i + m \<le> max i T \<and> createdJobs evs = take m (drop i (pl_steps pl3))
            \<and> (\<forall>k<m.
                  resolveJobInput pl3 (pl_steps pl3 ! (i + k)) (i + k)
                    (if k = 0 then lo else bang (o_output (pl_steps pl3 ! (i + k - 1))))
                  = Inr (o_input (pl_steps pl3 ! (i + k))))"
          using bd cj dr all by (intro exI [of _ "Suc n"]) simp
        have c3: "take i (pl_steps pl3) = take i ?S" using tk3 tk2 by simp
        have c4: "map o_type (pl_steps pl3) = map o_type ?S" using ih0(4) ty2 by simp
        have c2: "pl_initialInput pl3 = pl_initialInput pl" using ih0(2) f1(2) by simp
        show ?thesis
          unfolding res(2) using ih0(1) c2 c3 c4 ex by blast
      qed
    qed
  qed
qed

text \<open>
  In an execution of a workflow during which \<open>run\<close> is not called with an input, each
  job that is created reads the input the wiring rule gives it: a thumbnail step the
  output of the nearest preceding step whose kind is in VIDEO_OPERATIONS, or the original
  input when there is none; any other step the output of the step just before it, or the
  original input at index 0. The jobs are created in step order, so the job at position
  \<open>i\<close> is the job of step \<open>i\<close>.
\<close>

lemma wiring_without_rerun:
  assumes "executePipeline B envs pl = (evs, pl')" and "i < length (createdJobs evs)"
      and "\<forall>k. list_all keepsInput (se_events (envs k))"
  shows "inputWiredAt (pl_initialInput pl) (createdJobs evs) i
         \<and> o_type (createdJobs evs ! i) = o_type (pl_steps pl ! i)"
proof -
  let ?S = "pl_steps pl'" and ?js = "createdJobs evs" and ?init = "pl_initialInput pl"
  have loop: "executeLoop B envs (length (pl_steps pl)) 0 ?init pl = (evs, pl')"
    using assms(1) by (simp add: executePipeline_def)
  from executeLoop_wiring [OF loop refl assms(3)]
  obtain n where len: "length ?S = length (pl_steps pl)" and ini: "pl_initialInput pl' = ?init"
    and ty: "map o_type ?S = map o_type (pl_steps pl)"
    and n: "n \<le> length (pl_steps pl)" "?js = take n ?S"
    and rs: "\<forall>k<n. resolveJobInput pl' (?S ! k) k
                   (if k = 0 then ?init else bang (o_output (?S ! (k - 1))))
                 = Inr (o_input (?S ! k))"
    by (auto cong: if_cong)
  have ln: "length ?js = n" using n len by simp
  have iN: "i < n" using assms(2) ln by simp
  have at: "\<And>k. k \<le> i \<Longrightarrow> ?js ! k = ?S ! k" using n(2) iN by simp
  have r: "resolveJobInput pl' (?S ! i) i
             (if i = 0 then ?init else bang (o_output (?S ! (i - 1)))) = Inr (o_input (?S ! i))"
    using rs iN by blast
  have tyi: "o_type (?js ! i) = o_type (pl_steps pl ! i)"
  proof -
    have "o_type (?S ! i) = map o_type ?S ! i" using iN n(1) len by simp
    also have "\<dots> = o_type (pl_steps pl ! i)" using ty iN n(1) by simp
    finally show ?thesis using at [of i] by simp
  qed
  have thumb: "o_type (?js ! i) = Thumbnail \<Longrightarrow>
         (\<exists>j<i. o_type (?js ! j) \<in> VIDEO_OPERATIONS
               \<and> (\<forall>k. j < k \<and> k < i \<longrightarrow> o_type (?js ! k) \<notin> VIDEO_OPERATIONS)
               \<and> o_input (?js ! i) = bang (o_output (?js ! j)))
         \<or> ((\<forall>j<i. o_type (?js ! j) \<notin> VIDEO_OPERATIONS) \<and> o_input (?js ! i) = ?init)"
  proof -
    assume t: "o_type (?js ! i) = Thumbnail"
    then have "resolveLoop ?S ?init i = Inr (o_input (?S ! i))"
      using r at [of i] ini by (simp add: resolveJobInput_def VIDEO_REQUIRED_OPERATIONS_def)
    from resolveLoop_nearest [OF this] iN n(1) len
    have "(\<exists>j<i. o_type (?S ! j) \<in> VIDEO_OPERATIONS
           \<and> (\<forall>k. j < k \<and> k < i \<longrightarrow> o_type (?S ! k) \<notin> VIDEO_OPERATIONS)
           \<and> o_input (?S ! i) = bang (o_output (?S ! j)))
     \<or> ((\<forall>j<i. o_type (?S ! j) \<notin> VIDEO_OPERATIONS) \<and> o_input (?S ! i) = ?init)"
      by simp
    then show ?thesis using at by (auto simp: less_imp_le)
  qed
  have other: "o_type (?js ! i) \<noteq> Thumbnail \<Longrightarrow>
           o_input (?js ! i) = (if i = 0 then ?init else bang (o_output (?js ! (i - 1))))"
  proof -
    assume t: "o_type (?js ! i) \<noteq> Thumbnail"
    then have "o_input (?S ! i) = (if i = 0 then ?init else bang (o_output (?S ! (i - 1))))"
      using r at [of i] by (simp add: resolveJobInput_def)
    then show ?thesis using at [of i] at [of "i - 1"] by simp
  qed
  show ?thesis using thumb other tyi unfolding inputWiredAt_def by blast
qed

lemma sample_created:
  "map (\<lambda>s. (o_type s, o_input s, o_output s))
       (createdJobs (fst (executePipeline builtinsDec (\<lambda>i. quietEnv) samplePipeline)))
   = [(Convert, ''sample.mp4'', Some ''out.mkv''), (Compress, ''out.mkv'', Some ''out_c.mkv''),
      (Thumbnail, ''out_c.mkv'', Some ''thumb.png'')]"
  by code_simp

lemma audio_created:
  "map (\<lambda>s. (o_type s, o_input s, o_output s))
       (createdJobs (fst (executePipeline builtinsDec (\<lambda>i. quietEnv) audioPipeline)))
   = [(ExtractAudio, ''sample.mp4'', Some ''a.aac''), (Thumbnail, ''sample.mp4'', Some ''thumb.png'')]"
  by code_simp

text \<open>
  C5 fails in the code. The workflow extractAudio, thumbnail is run on \<open>sample.mp4\<close>, and
  while its first job runs \<open>run('other.mp4')\<close> is called. The call is refused, the
  workflow is already running, but it has replaced \<open>initialInput\<close>: the thumbnail step,
  which has no earlier step that produces video and should read the original input
  \<open>sample.mp4\<close>, reads \<open>other.mp4\<close>.
\<close>

theorem thumbnail_reads_replaced_input:
  "pl_initialInput idleAudioPipeline = ''sample.mp4''
   \<and> map (\<lambda>s. (o_type s, o_input s))
        (createdJobs (fst (run builtinsDec listFs rerunEnvs None sampleFs idleAudioPipeline)))
       = [(ExtractAudio, ''sample.mp4''), (Thumbnail, ''other.mp4'')]
   \<and> PError (mkMediaXError ''Pipeline is already running'' ''PIPELINE_RUNNING'' None) 0
       \<in> set (fst (run builtinsDec listFs rerunEnvs None sampleFs idleAudioPipeline))"
  by code_simp

subsection \<open>Workflow progress\<close>




lemma progressOf_report [simp]:
  "progressOf (workflowReport B d i n t0 p now) = workflowReport B d i n t0 p now"
  by (simp add: workflowReport_def Let_def)

lemma createdJobs_report [simp]: "createdJobs (workflowReport B d i n t0 p now) = []"
  by (simp add: workflowReport_def Let_def)











text \<open>With three steps, the first at 50 percent: the overall percent is the double
  16.666666666666664.\<close>

lemma overall_percent_rounded:
  "handleJobProgress builtinsDec (timemarkOnly ''00:00:05.00'') (Num 10) 0 3 0 4000 (Num 0)
     = [PProgress (Num (2345624805922133 / 140737488355328)) 1 3 (Some (Num 4))]
   \<and> toDouble (16666666666666664 / 1000000000000000) = 2345624805922133 / 140737488355328"
  by code_simp

section \<open>Properties of the schedulers\<close>

lemma runEntry_boundedBy:
  "boundedBy c s \<Longrightarrow> jgt (jq_concurrency s) (Num (of_int (jq_running s))) \<Longrightarrow>
     boundedBy c (fst (runEntry e s))"
  by (auto simp: boundedBy_def runEntry_def setRunning_def Let_def split: prod.splits)

lemma boundedBy_q: "boundedBy c (s\<lparr>jq_q := x\<rparr>) = boundedBy c s"
  by (simp add: boundedBy_def)

lemma admit_boundedBy: "boundedBy c s \<Longrightarrow> boundedBy c (fst (admit es s))"
proof (induction es arbitrary: s)
  case Nil
  then show ?case by (simp add: boundedBy_q)
next
  case (Cons e es)
  show ?case
  proof (cases "jgt (jq_concurrency s) (Num (of_int (jq_running s)))")
    case True
    have i: "boundedBy c (fst (runEntry e (s\<lparr>jq_q := es\<rparr>)))"
      using runEntry_boundedBy [of c "s\<lparr>jq_q := es\<rparr>" e] Cons.prems True
      by (simp add: boundedBy_q)
    obtain s' x where r: "runEntry e (s\<lparr>jq_q := es\<rparr>) = (s', x)"
      by (cases "runEntry e (s\<lparr>jq_q := es\<rparr>)")
    show ?thesis using True r i Cons.IH [of s'] by (cases x) simp_all
  next
    case False
    then show ?thesis using Cons.prems by (simp add: boundedBy_q)
  qed
qed

lemma tick_boundedBy: "boundedBy c s \<Longrightarrow> boundedBy c (fst (tick s))"
  by (simp add: tick_def admit_boundedBy)

lemma dec_boundedBy: "boundedBy c s \<Longrightarrow> boundedBy c (setRunning (jq_running s - 1) s)"
  by (auto simp: boundedBy_def setRunning_def)

lemma cleanup_boundedBy: "boundedBy c (cleanup e s) = boundedBy c s"
  by (simp add: boundedBy_def cleanup_def)

lemma onDone_boundedBy: "boundedBy c s \<Longrightarrow> boundedBy c (fst (onDone e s))"
  unfolding onDone_def by (intro tick_boundedBy dec_boundedBy) (simp add: cleanup_boundedBy)

lemma finishError_boundedBy: "boundedBy c s \<Longrightarrow> boundedBy c (finishError s)"
  unfolding finishError_def by (intro tick_boundedBy dec_boundedBy)

lemma onError_boundedBy: "boundedBy c s \<Longrightarrow> boundedBy c (onError e s)"
proof -
  assume a: "boundedBy c s"
  have c: "boundedBy c (cleanup e s)" using a by (simp add: cleanup_boundedBy)
  have q: "\<And>x. boundedBy c ((cleanup e s)\<lparr>jq_q := x\<rparr>)" using c by (simp add: boundedBy_q)
  have sl: "\<And>x. boundedBy c ((cleanup e s)\<lparr>jq_sleeping := x\<rparr>)"
    using c by (auto simp: boundedBy_def)
  show ?thesis
    using c q sl by (simp add: onError_def Let_def finishError_boundedBy)
qed

lemma backoffElapsed_boundedBy: "boundedBy c s \<Longrightarrow> boundedBy c (backoffElapsed s)"
proof -
  assume a: "boundedBy c s"
  have "\<And>x y. boundedBy c (s\<lparr>jq_sleeping := x, jq_q := y\<rparr>)"
    using a by (auto simp: boundedBy_def)
  then show ?thesis
    using a by (simp add: backoffElapsed_def finishError_boundedBy split: list.splits)
qed

lemma fireDone_boundedBy: "boundedBy c s \<Longrightarrow> boundedBy c (fst (fireDone es s))"
proof (induction es arbitrary: s)
  case Nil
  then show ?case by simp
next
  case (Cons e es)
  obtain s' x where r: "onDone e s = (s', x)" by (cases "onDone e s")
  have "boundedBy c s'" using onDone_boundedBy [OF Cons.prems, of e] r by simp
  then show ?case using r Cons.IH [of s'] by (cases x) simp_all
qed

lemma fireError_boundedBy: "boundedBy c s \<Longrightarrow> boundedBy c (fireError es s)"
  by (induction es arbitrary: s) (simp_all add: onError_boundedBy)

lemma dispatch_boundedBy: "boundedBy c s \<Longrightarrow> boundedBy c (fst (dispatch r acts s))"
proof (induction r acts s rule: dispatch.induct)
  case (1 r s)
  then show ?case by simp
next
  case (2 r out acts s)
  obtain s' x where f: "fireDone (listenersOf r s) s = (s', x)"
    by (cases "fireDone (listenersOf r s) s")
  have "boundedBy c s'" using fireDone_boundedBy [OF "2.prems", of "listenersOf r s"] f by simp
  then show ?case using f "2.IH" [of s'] by (cases x) simp_all
next
  case (3 r msg acts s)
  then show ?case by (simp add: fireError_boundedBy)
qed simp_all

lemma boundedBy_heap: "boundedBy c (s\<lparr>jq_heap := h\<rparr>) = boundedBy c s"
  by (simp add: boundedBy_def)

lemma qStep_boundedBy: "boundedBy c s \<Longrightarrow> boundedBy c (fst (qStep ev s))"
proof (cases ev)
  case (Add r)
  assume "boundedBy c s"
  then have "boundedBy c (s\<lparr>jq_q := jq_q s @ [\<lparr>en_job = r, en_tries = 0\<rparr>]\<rparr>)"
    by (simp add: boundedBy_q)
  then show ?thesis using Add by (simp add: tick_boundedBy)
next
  case Pause
  assume "boundedBy c s"
  then show ?thesis using Pause by (auto simp: boundedBy_def)
next
  case Resume
  assume "boundedBy c s"
  then have "boundedBy c (s\<lparr>jq_stopped := False\<rparr>)" by (auto simp: boundedBy_def)
  then show ?thesis using Resume by (simp add: tick_boundedBy)
next
  case (QCancel jobId)
  assume a: "boundedBy c s"
  have "\<And>x h. boundedBy c (s\<lparr>jq_q := x, jq_heap := h\<rparr>)" using a by (auto simp: boundedBy_def)
  then show ?thesis using QCancel a
    by (auto simp: dispatch_boundedBy split: option.splits prod.splits)
next
  case (JobEvt r inp)
  assume a: "boundedBy c s"
  then show ?thesis using JobEvt
    by (auto simp: dispatch_boundedBy boundedBy_heap split: prod.splits)
next
  case BackoffElapsed
  assume "boundedBy c s"
  then show ?thesis using BackoffElapsed by (simp add: backoffElapsed_boundedBy)
qed

lemma qRun_boundedBy: "boundedBy c s \<Longrightarrow> boundedBy c (qRun evs s)"
  by (induction evs arbitrary: s) (simp_all add: qStep_boundedBy)

lemma sqSmallStep_bound:
  "sq_concurrency s = Num c \<and> of_int (sq_running s) < c + 1 \<Longrightarrow>
   sqSmallStep f st s = (s', st') \<Longrightarrow>
     sq_concurrency s' = Num c \<and> of_int (sq_running s') < c + 1"
  by (induction f st s rule: sqSmallStep.induct)
     (auto simp: Let_def split: if_splits list.splits)

lemma sqFeed_bound:
  "sq_concurrency (fst cfg) = Num c \<and> of_int (sq_running (fst cfg)) < c + 1 \<Longrightarrow>
     sq_concurrency (fst (sqFeed i cfg)) = Num c \<and> of_int (sq_running (fst (sqFeed i cfg))) < c + 1"
proof (induction i cfg rule: sqFeed.induct)
  case (2 s f st)
  obtain s' st' where r: "sqSmallStep f st s = (s', st')" by (cases "sqSmallStep f st s")
  then show ?case using sqSmallStep_bound [OF _ r, of c] "2.prems" by simp
qed auto

lemma sqRun_bound:
  "sq_concurrency (fst cfg) = Num c \<and> of_int (sq_running (fst cfg)) < c + 1 \<Longrightarrow>
     sq_concurrency (fst (sqRun ins cfg)) = Num c
     \<and> of_int (sq_running (fst (sqRun ins cfg))) < c + 1"
proof (induction ins arbitrary: cfg)
  case Nil
  then show ?case by simp
next
  case (Cons i ins)
  show ?case using Cons.IH [OF sqFeed_bound [OF Cons.prems, of i]] by simp
qed

lemma whole_below_next: "rat_of_int v < of_int k + 1 \<Longrightarrow> v \<le> k"
proof -
  assume "rat_of_int v < of_int k + 1"
  then have "rat_of_int v < of_int (k + 1)" by simp
  then have "v < k + 1" by (simp only: of_int_less_iff)
  then show ?thesis by simp
qed

text \<open>
  C3, as the code has it. The limit is the number the caller gave. When it is a number
  \<open>c\<close> that is not negative, then after every sequence of events on a JobQueue (calls of
  add, pause, resume and cancel, calls and process events on its jobs, backoff timers)
  every value the counter \<open>running\<close> has had, the current one included, is below
  \<open>c + 1\<close>, and so is the counter of the plain Queue after every sequence of events and
  steps, that is at every instant of its code. When the limit is moreover a whole number
  \<open>k\<close>, no value of either counter exceeds \<open>k\<close>.
\<close>

theorem running_below_limit_plus_one:
  assumes "orElse concurrency (Num 2) = Num c" and "0 \<le> c"
  shows "(\<forall>v\<in>set (jq_seen (qRun evs (newJobQueue heap concurrency maxRetries backoffMs))).
            of_int v < c + 1)
       \<and> of_int (sq_running (fst (sqRun ins (newQueue opts concurrency, [])))) < c + 1
       \<and> (\<forall>k. c = of_int k \<longrightarrow>
            (\<forall>v\<in>set (jq_seen (qRun evs (newJobQueue heap concurrency maxRetries backoffMs))).
               v \<le> k)
            \<and> sq_running (fst (sqRun ins (newQueue opts concurrency, []))) \<le> k)"
proof -
  let ?q = "qRun evs (newJobQueue heap concurrency maxRetries backoffMs)"
  let ?p = "fst (sqRun ins (newQueue opts concurrency, []))"
  have "boundedBy c (newJobQueue heap concurrency maxRetries backoffMs)"
    using assms by (simp add: boundedBy_def newJobQueue_def)
  from qRun_boundedBy [OF this, of evs]
  have a: "\<forall>v\<in>set (jq_seen ?q). of_int v < c + 1" by (simp add: boundedBy_def)
  have "sq_concurrency (fst (newQueue opts concurrency, [])) = Num c
        \<and> of_int (sq_running (fst (newQueue opts concurrency, []))) < c + 1"
    using assms by (simp add: newQueue_def)
  from sqRun_bound [OF this, of ins]
  have b: "of_int (sq_running ?p) < c + 1" by simp
  have w: "\<forall>k. c = of_int k \<longrightarrow> (\<forall>v\<in>set (jq_seen ?q). v \<le> k) \<and> sq_running ?p \<le> k"
    using a b whole_below_next by blast
  show ?thesis using a b w by blast
qed

text \<open>The theorem with limit 1 on a JobQueue with three jobs added, a failure and a
  success, and on a plain Queue with three jobs added and one done.\<close>

theorem running_below_limit_plus_one_witness:
  "orElse (Some (Num 1)) (Num 2) = Num 1 \<and> (0::rat) \<le> 1 \<and> (1::rat) = of_int 1
   \<and> jq_seen (qRun [Add 0, Add 1, Add 2, JobEvt 0 (ProcClose (Some 1)),
                     JobEvt 1 (ProcClose (Some 0))]
                (newJobQueue sampleHeap (Some (Num 1)) None None)) = [0, 1, 0, 1, 0, 1]
   \<and> sq_running (fst (sqRun [SQAdd 0, SQStep, SQAdd 1, SQStep, SQAdd 2, SQStep, SQJobDone 0,
                             SQStep, SQStep]
                        (newQueue sampleOpts (Some (Num 1)), []))) \<le> 1"
proof -
  have h: "orElse (Some (Num 1)) (Num 2) = Num 1" "(0::rat) \<le> 1" by simp_all
  have s: "jq_seen (qRun [Add 0, Add 1, Add 2, JobEvt 0 (ProcClose (Some 1)),
                     JobEvt 1 (ProcClose (Some 0))]
                (newJobQueue sampleHeap (Some (Num 1)) None None)) = [0, 1, 0, 1, 0, 1]"
    by code_simp
  show ?thesis
    using running_below_limit_plus_one
            [OF h, of "[Add 0, Add 1, Add 2, JobEvt 0 (ProcClose (Some 1)),
                        JobEvt 1 (ProcClose (Some 0))]" sampleHeap None None
                  "[SQAdd 0, SQStep, SQAdd 1, SQStep, SQAdd 2, SQStep, SQJobDone 0, SQStep, SQStep]"
                  sampleOpts] h s
    by simp
qed

text \<open>
  C3 as stated fails for a limit that is not whole: with \<open>concurrency\<close> 1.5 and three
  jobs added, both the JobQueue and the plain Queue count 2 running jobs, more than the
  limit.
\<close>

theorem running_exceeds_fractional_limit:
  "jq_concurrency (qRun threeAdds (newJobQueue sampleHeap (Some (Num (3 / 2))) None None))
     = Num (3 / 2)
   \<and> jq_running (qRun threeAdds (newJobQueue sampleHeap (Some (Num (3 / 2))) None None)) = 2
   \<and> sq_running (fst (sqRun [SQAdd 0, SQStep, SQAdd 2, SQStep, SQAdd 3, SQStep]
                        (newQueue sampleOpts (Some (Num (3 / 2))), []))) = 2
   \<and> jgt (Num 2) (Num (3 / 2))"
  by code_simp

subsection \<open>Retries\<close>

lemma weight_Nil [simp]: "weight m r b [] = 0"
  by (simp add: weight_def)

lemma weight_Cons:
  "weight m r b (e # es) = (if en_job e = r then m + b - en_tries e else 0) + weight m r b es"
  by (simp add: weight_def)

lemma weight_append: "weight m r b (xs @ ys) = weight m r b xs + weight m r b ys"
  by (simp add: weight_def)

lemma weight_remove1:
  "e \<in> set es \<Longrightarrow>
     weight m r b (remove1 e es) = weight m r b es - (if en_job e = r then m + b - en_tries e else 0)"
proof (induction es)
  case Nil
  then show ?case by simp
next
  case (Cons x es)
  then show ?case by (auto simp: weight_Cons)
qed

lemma start_id: "j_id (fst (snd (start t j))) = j_id j"
  by (simp add: start_def setState_def Let_def split: sum.splits)

lemma cancel_id: "j_id (snd (cancel reason j)) = j_id j"
  by (simp add: cancel_def setState_def)

lemma jobStep_id: "j_id (snd (jobStep inp j)) = j_id j"
  by (cases inp)
     (auto simp: start_def cancel_def procError_def procStderr_def procClose_def fail_def
                 setState_def Let_def split: sum.splits option.splits prod.splits)

lemma jobStep_done:
  "Emit (EvDone out) \<in> set (fst (jobStep inp j)) \<Longrightarrow> inp = ProcClose (Some 0)"
  by (cases inp)
     (auto simp: start_def cancel_def procError_def procStderr_def procClose_def fail_def
                 setState_def Let_def split: sum.splits option.splits prod.splits if_splits)

lemma runEntry_fields:
  assumes "runEntry e s = (s', x)"
  shows "jq_q s' = jq_q s" "jq_sleeping s' = jq_sleeping s" "jq_maxRetries s' = jq_maxRetries s"
        "jq_listening s' = jq_listening s @ [e]" "jq_started s' = jq_started s @ [en_job e]"
        "jq_stopped s' = jq_stopped s" "jq_backoffMs s' = jq_backoffMs s"
  using assms
  by (auto simp: runEntry_def setRunning_def Let_def split: prod.splits)

lemma runEntry_id:
  assumes "runEntry e s = (s', x)"
  shows "j_id (jq_heap s' r) = j_id (jq_heap s r)"
  using assms start_id [of None "jq_heap s (en_job e)"]
  by (auto simp: runEntry_def setRunning_def Let_def split: prod.splits)

lemma runEntry_accounted:
  assumes "accounted m r i K (s\<lparr>jq_q := e # rest\<rparr>)"
      and "runEntry e (s\<lparr>jq_q := rest\<rparr>) = (s', x)"
  shows "accounted m r i K s' \<and> jq_q s' = rest"
  using assms(1) runEntry_fields [OF assms(2)] runEntry_id [OF assms(2), of r]
  by (auto simp: accounted_def remainingStarts_def startsOf_def weight_Cons weight_append)

lemma admit_accounted:
  "accounted m r i K (s\<lparr>jq_q := es\<rparr>) \<Longrightarrow> accounted m r i K (fst (admit es s))"
proof (induction es arbitrary: s)
  case Nil
  then show ?case by simp
next
  case (Cons e es)
  show ?case
  proof (cases "jgt (jq_concurrency s) (Num (of_int (jq_running s)))")
    case True
    obtain s' x where r: "runEntry e (s\<lparr>jq_q := es\<rparr>) = (s', x)"
      by (cases "runEntry e (s\<lparr>jq_q := es\<rparr>)")
    have a: "accounted m r i K s'" "jq_q s' = es"
      using runEntry_accounted [OF Cons.prems r] by simp_all
    have "s'\<lparr>jq_q := es\<rparr> = s'" using a(2) by simp
    then have "accounted m r i K (fst (admit es s'))" using Cons.IH [of s'] a(1) by simp
    then show ?thesis using True r a by (cases x) simp_all
  next
    case False
    then show ?thesis using Cons.prems by simp
  qed
qed

lemma tick_accounted: "accounted m r i K s \<Longrightarrow> accounted m r i K (fst (tick s))"
  using admit_accounted [where s = s and es = "jq_q s" and m = m and r = r and i = i and K = K]
  by (simp add: tick_def)

lemma setRunning_accounted: "accounted m r i K (setRunning v s) = accounted m r i K s"
  by (simp add: accounted_def remainingStarts_def startsOf_def setRunning_def)

lemma finishError_accounted: "accounted m r i K s \<Longrightarrow> accounted m r i K (finishError s)"
  by (simp add: finishError_def tick_accounted setRunning_accounted)

lemma cleanup_set: "set (jq_listening (cleanup e s)) \<subseteq> set (jq_listening s)"
  using set_remove1_subset [of e "jq_listening s"] by (simp add: cleanup_def)

lemma onError_accounted:
  assumes a: "accounted m r i K s" and mem: "e \<in> set (jq_listening s)"
  shows "accounted m r i K (onError e s)"
proof -
  let ?c = "cleanup e s"
  have mr: "jq_maxRetries ?c = m" using a by (simp add: accounted_def cleanup_def)
  have tr: "en_job e = r \<Longrightarrow> en_tries e \<le> m" using a mem by (auto simp: accounted_def)
  have w: "weight m r 0 (jq_listening ?c)
           = weight m r 0 (jq_listening s) - (if en_job e = r then m - en_tries e else 0)"
    using weight_remove1 [OF mem, of m r 0] by (simp add: cleanup_def)
  have sub: "set (jq_listening ?c) \<subseteq> set (jq_listening s)" by (rule cleanup_set)
  have rest: "jq_q ?c = jq_q s" "jq_sleeping ?c = jq_sleeping s" "jq_started ?c = jq_started s"
             "jq_heap ?c = jq_heap s"
    by (simp_all add: cleanup_def)
  show ?thesis
  proof (cases "en_tries e < jq_maxRetries ?c")
    case True
    let ?e' = "e\<lparr>en_tries := en_tries e + 1\<rparr>"
    have q: "accounted m r i K (?c\<lparr>jq_q := ?e' # jq_q ?c\<rparr>)"
      using a w sub rest mr True
      by (auto simp: accounted_def remainingStarts_def startsOf_def weight_Cons)
    have sl: "accounted m r i K (?c\<lparr>jq_sleeping := jq_sleeping ?c @ [?e']\<rparr>)"
      using a w sub rest mr True
      by (auto simp: accounted_def remainingStarts_def startsOf_def weight_Cons weight_append)
    show ?thesis using True q sl by (simp add: onError_def Let_def finishError_accounted)
  next
    case False
    have "en_job e = r \<Longrightarrow> m - en_tries e = 0" using tr False mr by simp
    then have "accounted m r i K ?c"
      using a w sub rest mr by (auto simp: accounted_def remainingStarts_def startsOf_def)
    then show ?thesis using False by (simp add: onError_def Let_def finishError_accounted)
  qed
qed

lemma onDone_accounted:
  assumes a: "accounted m r i K s" and mem: "e \<in> set (jq_listening s)" and ne: "en_job e \<noteq> r"
  shows "accounted m r i K (fst (onDone e s))"
proof -
  let ?c = "cleanup e s"
  have w: "weight m r 0 (jq_listening ?c) = weight m r 0 (jq_listening s)"
    using weight_remove1 [OF mem, of m r 0] ne by (simp add: cleanup_def)
  have sub: "set (jq_listening ?c) \<subseteq> set (jq_listening s)" by (rule cleanup_set)
  have "accounted m r i K ?c"
    using a w sub by (auto simp: accounted_def remainingStarts_def startsOf_def cleanup_def)
  then show ?thesis by (simp add: onDone_def tick_accounted setRunning_accounted)
qed

lemma admit_listening: "mset (jq_listening s) \<subseteq># mset (jq_listening (fst (admit es s)))"
proof (induction es arbitrary: s)
  case Nil
  then show ?case by simp
next
  case (Cons e es)
  show ?case
  proof (cases "jgt (jq_concurrency s) (Num (of_int (jq_running s)))")
    case True
    obtain s' x where r: "runEntry e (s\<lparr>jq_q := es\<rparr>) = (s', x)"
      by (cases "runEntry e (s\<lparr>jq_q := es\<rparr>)")
    have l: "jq_listening s' = jq_listening s @ [e]" using runEntry_fields(4) [OF r] by simp
    have "mset (jq_listening s) \<subseteq># mset (jq_listening s')" using l by simp
    moreover have "mset (jq_listening s') \<subseteq># mset (jq_listening (fst (admit es s')))"
      by (rule Cons.IH)
    ultimately have "mset (jq_listening s) \<subseteq># mset (jq_listening (fst (admit es s')))"
      by (rule subset_mset.order_trans)
    then show ?thesis using True r l by (cases x) simp_all
  next
    case False
    then show ?thesis by simp
  qed
qed

lemma tick_listening: "mset (jq_listening s) \<subseteq># mset (jq_listening (fst (tick s)))"
  by (simp add: tick_def admit_listening)

lemma finishError_listening: "mset (jq_listening s) \<subseteq># mset (jq_listening (finishError s))"
  using tick_listening [of "setRunning (jq_running s - 1) s"]
  by (simp add: finishError_def setRunning_def)

lemma onError_listening:
  "mset (jq_listening s) - {#e#} \<subseteq># mset (jq_listening (onError e s))"
proof -
  have c: "mset (jq_listening (cleanup e s)) = mset (jq_listening s) - {#e#}"
    by (simp add: cleanup_def)
  have f: "\<And>x. mset (jq_listening s) - {#e#}
               \<subseteq># mset (jq_listening (finishError ((cleanup e s)\<lparr>jq_q := x\<rparr>)))"
    using finishError_listening [of "(cleanup e s)\<lparr>jq_q := _\<rparr>"] c by simp
  have g: "mset (jq_listening s) - {#e#} \<subseteq># mset (jq_listening (finishError (cleanup e s)))"
    using finishError_listening [of "cleanup e s"] c by simp
  show ?thesis using c f g by (simp add: onError_def Let_def)
qed

lemma onDone_listening:
  "mset (jq_listening s) - {#e#} \<subseteq># mset (jq_listening (fst (onDone e s)))"
proof -
  have c: "mset (jq_listening (cleanup e s)) = mset (jq_listening s) - {#e#}"
    by (simp add: cleanup_def)
  show ?thesis
    using tick_listening [of "setRunning (jq_running (cleanup e s) - 1) (cleanup e s)"] c
    by (simp add: onDone_def setRunning_def)
qed

lemma snapshot_step:
  assumes "mset (e # es) \<subseteq># L" and "L - {#e#} \<subseteq># L'"
  shows "mset es \<subseteq># L'"
proof -
  have "add_mset e (mset es) \<subseteq># L" using assms(1) by simp
  then have "mset es \<subseteq># L - {#e#}"
    by (metis add_mset_remove_trivial mset_subset_eq_insertD insert_DiffM
              mset_subset_eq_add_mset_cancel)
  then show ?thesis using assms(2) by (rule subset_mset.order_trans)
qed

lemma fireError_accounted:
  "accounted m r i K s \<Longrightarrow> mset es \<subseteq># mset (jq_listening s) \<Longrightarrow>
     accounted m r i K (fireError es s)"
proof (induction es arbitrary: s)
  case Nil
  then show ?case by simp
next
  case (Cons e es)
  have mem: "e \<in> set (jq_listening s)"
    using Cons.prems(2) by (metis mset_subset_eqD list.set_intros(1) set_mset_mset)
  have a: "accounted m r i K (onError e s)" using onError_accounted [OF Cons.prems(1) mem] .
  have b: "mset es \<subseteq># mset (jq_listening (onError e s))"
    using snapshot_step [OF Cons.prems(2) onError_listening] .
  show ?case using Cons.IH [OF a b] by simp
qed

lemma fireDone_accounted:
  "accounted m r i K s \<Longrightarrow> mset es \<subseteq># mset (jq_listening s) \<Longrightarrow>
   \<forall>e\<in>set es. en_job e \<noteq> r \<Longrightarrow> accounted m r i K (fst (fireDone es s))"
proof (induction es arbitrary: s)
  case Nil
  then show ?case by simp
next
  case (Cons e es)
  have mem: "e \<in> set (jq_listening s)"
    using Cons.prems(2) by (metis mset_subset_eqD list.set_intros(1) set_mset_mset)
  obtain s' x where r: "onDone e s = (s', x)" by (cases "onDone e s")
  have a: "accounted m r i K s'"
    using onDone_accounted [OF Cons.prems(1) mem] Cons.prems(3) r by simp
  have b: "mset es \<subseteq># mset (jq_listening s')"
    using snapshot_step [OF Cons.prems(2) onDone_listening] r by simp
  show ?case using Cons.IH [OF a b] Cons.prems(3) r a by (cases x) simp_all
qed

lemma listenersOf_sub: "mset (listenersOf r' s) \<subseteq># mset (jq_listening s)"
  by (simp add: listenersOf_def)

lemma dispatch_accounted:
  "accounted m r i K s \<Longrightarrow> (r' = r \<longrightarrow> (\<forall>out. Emit (EvDone out) \<notin> set acts)) \<Longrightarrow>
     accounted m r i K (fst (dispatch r' acts s))"
proof (induction r' acts s rule: dispatch.induct)
  case (1 r' s)
  then show ?case by simp
next
  case (2 r' out acts s)
  have ne: "r' \<noteq> r" using "2.prems"(2) by auto
  obtain s' x where f: "fireDone (listenersOf r' s) s = (s', x)"
    by (cases "fireDone (listenersOf r' s) s")
  have "\<forall>e\<in>set (listenersOf r' s). en_job e \<noteq> r" using ne by (simp add: listenersOf_def)
  from fireDone_accounted [OF "2.prems"(1) listenersOf_sub this]
  have a: "accounted m r i K s'" using f by simp
  show ?case using f a "2.IH" [of s'] ne by (cases x) simp_all
next
  case (3 r' msg acts s)
  have a: "accounted m r i K (fireError (listenersOf r' s) s)"
    using fireError_accounted [OF "3.prems"(1) listenersOf_sub] .
  show ?case using "3.IH" [OF a] "3.prems"(2) by simp
qed simp_all

lemma extractFirst_Some:
  "extractFirst P xs = Some (e, rest) \<Longrightarrow> P e \<and> e \<in> set xs \<and> rest = remove1 e xs"
proof (induction xs arbitrary: rest)
  case Nil
  then show ?case by simp
next
  case (Cons x xs)
  show ?case
  proof (cases "P x")
    case True
    then show ?thesis using Cons.prems by auto
  next
    case False
    then obtain ys where y: "extractFirst P xs = Some (e, ys)" "rest = x # ys"
      using Cons.prems by (auto split: option.splits)
    from Cons.IH [OF y(1)] have "P e" "e \<in> set xs" "ys = remove1 e xs" by simp_all
    then show ?thesis using False y(2) by auto
  qed
qed

lemma accounted_heap:
  "accounted m r i K s \<Longrightarrow> j_id j' = j_id (jq_heap s x) \<Longrightarrow>
     accounted m r i K (s\<lparr>jq_heap := (jq_heap s)(x := j')\<rparr>)"
  by (auto simp: accounted_def remainingStarts_def startsOf_def)

lemma accounted_stopped: "accounted m r i K (s\<lparr>jq_stopped := b\<rparr>) = accounted m r i K s"
  by (simp add: accounted_def remainingStarts_def startsOf_def)

lemma backoffElapsed_accounted:
  assumes "accounted m r i K s"
  shows "accounted m r i K (backoffElapsed s)"
proof (cases "jq_sleeping s")
  case Nil
  then show ?thesis using assms by (simp add: backoffElapsed_def)
next
  case (Cons e rest)
  have "accounted m r i K (s\<lparr>jq_sleeping := rest, jq_q := e # jq_q s\<rparr>)"
    using assms Cons by (auto simp: accounted_def remainingStarts_def startsOf_def weight_Cons)
  then show ?thesis using Cons by (simp add: backoffElapsed_def finishError_accounted)
qed

lemma qStep_accounted:
  assumes a: "accounted m r i K s"
      and "ev \<noteq> Add r" "ev \<noteq> JobEvt r (ProcClose (Some 0))" "ev \<noteq> QCancel i"
  shows "accounted m r i K (fst (qStep ev s))"
proof (cases ev)
  case (Add r')
  then have ne: "r' \<noteq> r" using assms(2) by simp
  have "accounted m r i K (s\<lparr>jq_q := jq_q s @ [\<lparr>en_job = r', en_tries = 0\<rparr>]\<rparr>)"
    using a ne by (auto simp: accounted_def remainingStarts_def startsOf_def weight_append weight_Cons)
  then show ?thesis using Add by (simp add: tick_accounted)
next
  case Pause
  then show ?thesis using a by (simp add: accounted_stopped)
next
  case Resume
  then show ?thesis using a by (simp add: tick_accounted accounted_stopped)
next
  case (QCancel jobId)
  then have ne: "jobId \<noteq> i" using assms(4) by simp
  show ?thesis
  proof (cases "extractFirst (\<lambda>e. j_id (jq_heap s (en_job e)) = jobId) (jq_q s)")
    case None
    then show ?thesis using QCancel a by simp
  next
    case (Some p)
    obtain e rest where p: "p = (e, rest)" by (cases p)
    from extractFirst_Some [OF Some [unfolded p]]
    have e: "j_id (jq_heap s (en_job e)) = jobId" "e \<in> set (jq_q s)" "rest = remove1 e (jq_q s)"
      by simp_all
    have er: "en_job e \<noteq> r" using e(1) ne a by (auto simp: accounted_def)
    have w: "weight m r 1 rest = weight m r 1 (jq_q s)"
      using weight_remove1 [OF e(2), of m r 1] er e(3) by simp
    have sub: "set rest \<subseteq> set (jq_q s)" using e(3) set_remove1_subset by metis
    have q: "accounted m r i K (s\<lparr>jq_q := rest\<rparr>)"
      using a w sub by (auto simp: accounted_def remainingStarts_def startsOf_def)
    obtain acts j' where c: "cancel ''removed'' (jq_heap s (en_job e)) = (acts, j')"
      by (cases "cancel ''removed'' (jq_heap s (en_job e))")
    have "j_id j' = j_id (jq_heap (s\<lparr>jq_q := rest\<rparr>) (en_job e))"
      using cancel_id [of "''removed''" "jq_heap s (en_job e)"] c by simp
    from accounted_heap [OF q this]
    have h: "accounted m r i K (s\<lparr>jq_q := rest, jq_heap := (jq_heap s)(en_job e := j')\<rparr>)"
      by simp
    show ?thesis
      using QCancel Some p c dispatch_accounted [OF h, of "en_job e" acts] er by simp
  qed
next
  case (JobEvt r' inp)
  obtain acts j' where c: "jobStep inp (jq_heap s r') = (acts, j')"
    by (cases "jobStep inp (jq_heap s r')")
  have "j_id j' = j_id (jq_heap s r')" using jobStep_id [of inp "jq_heap s r'"] c by simp
  from accounted_heap [OF a this]
  have h: "accounted m r i K (s\<lparr>jq_heap := (jq_heap s)(r' := j')\<rparr>)" .
  have nd: "r' = r \<longrightarrow> (\<forall>out. Emit (EvDone out) \<notin> set acts)"
  proof (intro impI allI notI)
    fix out assume r: "r' = r" and d: "Emit (EvDone out) \<in> set acts"
    have "inp = ProcClose (Some 0)" using jobStep_done [of out inp "jq_heap s r'"] c d by simp
    then show False using assms(3) JobEvt r by simp
  qed
  show ?thesis using JobEvt c dispatch_accounted [OF h nd] by simp
next
  case BackoffElapsed
  then show ?thesis using a by (simp add: backoffElapsed_accounted)
qed

lemma qStep_add_accounted:
  assumes a: "accounted m r i K s" and m: "0 \<le> m"
  shows "accounted m r i (K + m + 1) (fst (qStep (Add r) s))"
proof -
  have "accounted m r i (K + m + 1) (s\<lparr>jq_q := jq_q s @ [\<lparr>en_job = r, en_tries = 0\<rparr>]\<rparr>)"
    using a m by (auto simp: accounted_def remainingStarts_def startsOf_def weight_append weight_Cons)
  then show ?thesis by (simp add: tick_accounted)
qed

lemma qRun_accounted:
  "accounted m r i K s \<Longrightarrow> 0 \<le> m \<Longrightarrow> JobEvt r (ProcClose (Some 0)) \<notin> set evs \<Longrightarrow>
   QCancel i \<notin> set evs \<Longrightarrow>
     accounted m r i (K + (m + 1) * int (count_list evs (Add r))) (qRun evs s)"
proof (induction evs arbitrary: s K)
  case Nil
  then show ?case by simp
next
  case (Cons ev evs)
  show ?case
  proof (cases "ev = Add r")
    case True
    have a: "accounted m r i (K + m + 1) (fst (qStep ev s))"
      using qStep_add_accounted [OF Cons.prems(1,2)] True by simp
    have "accounted m r i (K + m + 1 + (m + 1) * int (count_list evs (Add r)))
            (qRun evs (fst (qStep ev s)))"
      using Cons.IH [OF a Cons.prems(2)] Cons.prems(3,4) by simp
    then show ?thesis using True by (simp add: algebra_simps)
  next
    case False
    have a: "accounted m r i K (fst (qStep ev s))"
      using qStep_accounted [OF Cons.prems(1) False] Cons.prems(3,4) by auto
    show ?thesis using Cons.IH [OF a Cons.prems(2)] Cons.prems(3,4) False by simp
  qed
qed

lemma newJobQueue_accounted:
  "accounted m r (j_id (heap r)) 0 (newJobQueue heap c (Some m) b)"
  by (simp add: accounted_def remainingStarts_def startsOf_def newJobQueue_def)

lemma dropped_remaining: "dropped r s \<Longrightarrow> remainingStarts m r s = 0"
proof -
  assume d: "dropped r s"
  have z: "\<And>es b. set es \<subseteq> set (jq_q s @ jq_sleeping s @ jq_listening s) \<Longrightarrow> weight m r b es = 0"
  proof -
    fix es :: "Entry list" and b
    assume "set es \<subseteq> set (jq_q s @ jq_sleeping s @ jq_listening s)"
    then have "filter (\<lambda>e. en_job e = r) es = []" using d by (auto simp: dropped_def filter_empty_conv)
    then show "weight m r b es = 0" by (simp add: weight_def)
  qed
  have "weight m r 1 (jq_q s) = 0" "weight m r 1 (jq_sleeping s) = 0"
       "weight m r 0 (jq_listening s) = 0"
    by (rule z, auto)+
  then show ?thesis by (simp add: remainingStarts_def)
qed

lemma admit_started: "\<exists>more. jq_started (fst (admit es s)) = jq_started s @ more"
proof (induction es arbitrary: s)
  case Nil
  then show ?case by simp
next
  case (Cons e es)
  show ?case
  proof (cases "jgt (jq_concurrency s) (Num (of_int (jq_running s)))")
    case True
    obtain s' x where r: "runEntry e (s\<lparr>jq_q := es\<rparr>) = (s', x)"
      by (cases "runEntry e (s\<lparr>jq_q := es\<rparr>)")
    have st: "jq_started s' = jq_started s @ [en_job e]" using runEntry_fields(5) [OF r] by simp
    obtain more where "jq_started (fst (admit es s')) = jq_started s' @ more"
      using Cons.IH [of s'] by blast
    then show ?thesis using True r st by (cases x) simp_all
  next
    case False
    then show ?thesis by simp
  qed
qed

lemma admit_front:
  assumes "jgt (jq_concurrency s) (Num (of_int (jq_running s)))"
  shows "\<exists>more. jq_started (fst (admit (e # es) s)) = jq_started s @ en_job e # more"
proof -
  obtain s' x where r: "runEntry e (s\<lparr>jq_q := es\<rparr>) = (s', x)"
    by (cases "runEntry e (s\<lparr>jq_q := es\<rparr>)")
  have st: "jq_started s' = jq_started s @ [en_job e]" using runEntry_fields(5) [OF r] by simp
  obtain more where "jq_started (fst (admit es s')) = jq_started s' @ more"
    using admit_started [of es s'] by blast
  then show ?thesis using assms r st by (cases x) simp_all
qed

lemma finishError_front:
  assumes "jq_q s = e # es"
  shows "(jq_stopped s \<longrightarrow> jq_q (finishError s) = e # es)
       \<and> (\<not> jq_stopped s \<and> jge (jq_concurrency s) (Num (of_int (jq_running s))) \<longrightarrow>
            (\<exists>more. jq_started (finishError s) = jq_started s @ en_job e # more))"
proof (intro conjI impI)
  assume "jq_stopped s"
  then show "jq_q (finishError s) = e # es"
    using assms by (simp add: finishError_def tick_def setRunning_def)
next
  assume h: "\<not> jq_stopped s \<and> jge (jq_concurrency s) (Num (of_int (jq_running s)))"
  let ?s = "setRunning (jq_running s - 1) s"
  have "jgt (jq_concurrency ?s) (Num (of_int (jq_running ?s)))"
    using h by (cases "jq_concurrency s") (simp_all add: setRunning_def)
  from admit_front [OF this, of e es]
  show "\<exists>more. jq_started (finishError s) = jq_started s @ en_job e # more"
    using h assms by (simp add: finishError_def tick_def setRunning_def)
qed

lemma weight_nonneg:
  "\<forall>e\<in>set es. en_job e = r \<longrightarrow> en_tries e \<le> m \<Longrightarrow> 0 \<le> b \<Longrightarrow> 0 \<le> weight m r b es"
  by (induction es) (auto simp: weight_Cons)

lemma accounted_remaining_nonneg:
  "accounted m r i K s \<Longrightarrow> 0 \<le> remainingStarts m r s"
proof -
  assume a: "accounted m r i K s"
  have "0 \<le> weight m r 1 (jq_q s)" "0 \<le> weight m r 1 (jq_sleeping s)"
       "0 \<le> weight m r 0 (jq_listening s)"
    using a by (auto simp: accounted_def intro!: weight_nonneg)
  then show ?thesis by (simp add: remainingStarts_def)
qed

lemma admit_conserves:
  "mset (jq_q (fst (admit es s))) + mset (jq_listening (fst (admit es s)))
     = mset es + mset (jq_listening s)
   \<and> jq_sleeping (fst (admit es s)) = jq_sleeping s"
proof (induction es arbitrary: s)
  case Nil
  then show ?case by simp
next
  case (Cons e es)
  show ?case
  proof (cases "jgt (jq_concurrency s) (Num (of_int (jq_running s)))")
    case True
    obtain s' x where r: "runEntry e (s\<lparr>jq_q := es\<rparr>) = (s', x)"
      by (cases "runEntry e (s\<lparr>jq_q := es\<rparr>)")
    have f: "jq_listening s' = jq_listening s @ [e]" "jq_q s' = es" "jq_sleeping s' = jq_sleeping s"
      using runEntry_fields [OF r] by simp_all
    show ?thesis using True r f Cons.IH [of s'] by (cases x) simp_all
  next
    case False
    then show ?thesis by simp
  qed
qed

lemma finishError_conserves:
  "mset (jq_q (finishError s)) + mset (jq_listening (finishError s))
     = mset (jq_q s) + mset (jq_listening s)
   \<and> jq_sleeping (finishError s) = jq_sleeping s"
  using admit_conserves [of "jq_q s" "setRunning (jq_running s - 1) s"]
  by (simp add: finishError_def tick_def setRunning_def)

lemma onError_exhausted:
  assumes "\<not> en_tries e < jq_maxRetries s" and "e \<in> set (jq_listening s)"
  shows "mset (jq_q (onError e s)) + mset (jq_listening (onError e s))
           = mset (jq_q s) + (mset (jq_listening s) - {#e#})
         \<and> jq_sleeping (onError e s) = jq_sleeping s"
  using assms finishError_conserves [of "cleanup e s"]
  by (simp add: onError_def Let_def cleanup_def)

lemma onError_retry_front:
  assumes "en_tries e < jq_maxRetries s" and "jq_backoffMs s = 0"
  shows "(jq_stopped s \<longrightarrow> jq_q (onError e s) = e\<lparr>en_tries := en_tries e + 1\<rparr> # jq_q s)
       \<and> (\<not> jq_stopped s \<and> jge (jq_concurrency s) (Num (of_int (jq_running s))) \<longrightarrow>
            (\<exists>more. jq_started (onError e s) = jq_started s @ en_job e # more))"
  using assms
        finishError_front [of "(cleanup e s)\<lparr>jq_q := e\<lparr>en_tries := en_tries e + 1\<rparr> # jq_q s\<rparr>"
                              "e\<lparr>en_tries := en_tries e + 1\<rparr>" "jq_q s"]
  by (simp add: onError_def Let_def cleanup_def)

lemma onError_retry_sleeps:
  assumes "en_tries e < jq_maxRetries s" and "jq_backoffMs s \<noteq> 0"
  shows "jq_sleeping (onError e s) = jq_sleeping s @ [e\<lparr>en_tries := en_tries e + 1\<rparr>]
         \<and> jq_q (onError e s) = jq_q s \<and> jq_running (onError e s) = jq_running s"
  using assms by (simp add: onError_def Let_def cleanup_def)

lemma backoffElapsed_front:
  assumes "jq_sleeping s = e # sl"
  shows "(jq_stopped s \<longrightarrow> jq_q (backoffElapsed s) = e # jq_q s)
       \<and> (\<not> jq_stopped s \<and> jge (jq_concurrency s) (Num (of_int (jq_running s))) \<longrightarrow>
            (\<exists>more. jq_started (backoffElapsed s) = jq_started s @ en_job e # more))"
  using assms finishError_front [of "s\<lparr>jq_sleeping := sl, jq_q := e # jq_q s\<rparr>" e "jq_q s"]
  by (simp add: backoffElapsed_def)

text \<open>
  C4, for a queue configured with maxRetries 2. First, over every sequence of events in
  which the job at \<open>r\<close> is added once, none of its runs ends with exit code 0 (so every
  run that ends does so with an error notification) and it is not cancelled through the
  queue: the queue calls \<open>start\<close> on it at most 3 times, and once no entry of it is left
  in the queue it has called \<open>start\<close> exactly 3 times. Then, for the error listener of an
  entry \<open>e\<close> in any queue state \<open>s\<close>: an entry with tries left goes to the front of the
  backlog, at once without backoff (seen in the backlog when the queue is paused, and as
  the very next job started when it is not) and when its timer fires with backoff; an
  entry with no tries left is removed from the running entries and put nowhere else.
\<close>

theorem retry_three_starts_then_dropped:
  "(count_list evs (Add r) = 1 \<and> JobEvt r (ProcClose (Some 0)) \<notin> set evs
      \<and> QCancel (j_id (heap r)) \<notin> set evs \<longrightarrow>
        startsOf r (qRun evs (newJobQueue heap concurrency (Some 2) backoffMs)) \<le> 3
        \<and> (dropped r (qRun evs (newJobQueue heap concurrency (Some 2) backoffMs)) \<longrightarrow>
             startsOf r (qRun evs (newJobQueue heap concurrency (Some 2) backoffMs)) = 3))
   \<and> (en_tries e < jq_maxRetries s \<and> jq_backoffMs s = 0 \<longrightarrow>
        (jq_stopped s \<longrightarrow> jq_q (onError e s) = e\<lparr>en_tries := en_tries e + 1\<rparr> # jq_q s)
        \<and> (\<not> jq_stopped s \<and> jge (jq_concurrency s) (Num (of_int (jq_running s))) \<longrightarrow>
             (\<exists>more. jq_started (onError e s) = jq_started s @ en_job e # more)))
   \<and> (en_tries e < jq_maxRetries s \<and> jq_backoffMs s \<noteq> 0 \<longrightarrow>
        jq_sleeping (onError e s) = jq_sleeping s @ [e\<lparr>en_tries := en_tries e + 1\<rparr>]
        \<and> jq_q (onError e s) = jq_q s \<and> jq_running (onError e s) = jq_running s)
   \<and> (jq_sleeping s = e # sl \<longrightarrow>
        (jq_stopped s \<longrightarrow> jq_q (backoffElapsed s) = e # jq_q s)
        \<and> (\<not> jq_stopped s \<and> jge (jq_concurrency s) (Num (of_int (jq_running s))) \<longrightarrow>
             (\<exists>more. jq_started (backoffElapsed s) = jq_started s @ en_job e # more)))
   \<and> (\<not> en_tries e < jq_maxRetries s \<and> e \<in> set (jq_listening s) \<longrightarrow>
        mset (jq_q (onError e s)) + mset (jq_listening (onError e s))
          = mset (jq_q s) + (mset (jq_listening s) - {#e#})
        \<and> jq_sleeping (onError e s) = jq_sleeping s)"
proof -
  let ?f = "qRun evs (newJobQueue heap concurrency (Some 2) backoffMs)"
  have count: "count_list evs (Add r) = 1 \<and> JobEvt r (ProcClose (Some 0)) \<notin> set evs
      \<and> QCancel (j_id (heap r)) \<notin> set evs \<longrightarrow>
        startsOf r ?f \<le> 3 \<and> (dropped r ?f \<longrightarrow> startsOf r ?f = 3)"
  proof (intro impI)
    assume h: "count_list evs (Add r) = 1 \<and> JobEvt r (ProcClose (Some 0)) \<notin> set evs
      \<and> QCancel (j_id (heap r)) \<notin> set evs"
    have "accounted 2 r (j_id (heap r)) (0 + (2 + 1) * int (count_list evs (Add r))) ?f"
      using qRun_accounted [OF newJobQueue_accounted [of 2 r heap concurrency backoffMs], of evs] h
      by simp
    then have a: "accounted 2 r (j_id (heap r)) 3 ?f" using h by simp
    then have eq: "startsOf r ?f + remainingStarts 2 r ?f = 3" by (simp add: accounted_def)
    have "0 \<le> remainingStarts 2 r ?f" using accounted_remaining_nonneg [OF a] .
    then show "startsOf r ?f \<le> 3 \<and> (dropped r ?f \<longrightarrow> startsOf r ?f = 3)"
      using eq dropped_remaining [of r ?f 2] by auto
  qed
  show ?thesis
    using count onError_retry_front [of e s] onError_retry_sleeps [of e s]
          backoffElapsed_front [of s e sl] onError_exhausted [of e s]
    by blast
qed

lemma failThrice_facts:
  "count_list failThrice (Add 0) = 1"
  "JobEvt 0 (ProcClose (Some 0)) \<notin> set failThrice"
  "QCancel (j_id (sampleHeap 0)) \<notin> set failThrice"
  by (simp_all add: failThrice_def)

lemma failThrice_run:
  "jq_started (qRun failThrice (newJobQueue sampleHeap None (Some 2) None)) = [0, 0, 0]"
  "jq_q (qRun failThrice (newJobQueue sampleHeap None (Some 2) None)) = []"
  "jq_listening (qRun failThrice (newJobQueue sampleHeap None (Some 2) None)) = []"
  "jq_sleeping (qRun failThrice (newJobQueue sampleHeap None (Some 2) None)) = []"
  by code_simp+

lemma pausedQueue_facts:
  "jq_q pausedQueue = [\<lparr>en_job = 1, en_tries = 0\<rparr>]"
  "jq_listening pausedQueue = [\<lparr>en_job = 0, en_tries = 0\<rparr>]"
  "jq_maxRetries pausedQueue = 2" "jq_backoffMs pausedQueue = 0" "jq_stopped pausedQueue"
  by code_simp+

lemma sleepingQueue_facts:
  "jq_q sleepingQueue = []"
  "jq_sleeping sleepingQueue = [\<lparr>en_job = 0, en_tries = 1\<rparr>]"
  "jq_maxRetries sleepingQueue = 2" "jq_backoffMs sleepingQueue = 5" "jq_stopped sleepingQueue"
  by code_simp+

lemma lastTryQueue_facts:
  "jq_q lastTryQueue = []"
  "jq_listening lastTryQueue = [\<lparr>en_job = 0, en_tries = 2\<rparr>]"
  "jq_maxRetries lastTryQueue = 2"
  by code_simp+

text \<open>The theorem on one job that fails three times, and on the three sample queues.\<close>

theorem retry_three_starts_then_dropped_witness:
  "count_list failThrice (Add 0) = 1 \<and> JobEvt 0 (ProcClose (Some 0)) \<notin> set failThrice
   \<and> QCancel (j_id (sampleHeap 0)) \<notin> set failThrice
   \<and> dropped 0 (qRun failThrice (newJobQueue sampleHeap None (Some 2) None))
   \<and> jq_started (qRun failThrice (newJobQueue sampleHeap None (Some 2) None)) = [0, 0, 0]
   \<and> startsOf 0 (qRun failThrice (newJobQueue sampleHeap None (Some 2) None)) = 3
   \<and> en_tries \<lparr>en_job = 0, en_tries = 0\<rparr> < jq_maxRetries pausedQueue
   \<and> jq_backoffMs pausedQueue = 0 \<and> jq_stopped pausedQueue
   \<and> jq_q (onError \<lparr>en_job = 0, en_tries = 0\<rparr> pausedQueue)
       = [\<lparr>en_job = 0, en_tries = 1\<rparr>, \<lparr>en_job = 1, en_tries = 0\<rparr>]
   \<and> jq_sleeping sleepingQueue = [\<lparr>en_job = 0, en_tries = 1\<rparr>] \<and> jq_stopped sleepingQueue
   \<and> jq_backoffMs sleepingQueue \<noteq> 0
   \<and> jq_q (backoffElapsed sleepingQueue) = [\<lparr>en_job = 0, en_tries = 1\<rparr>]
   \<and> \<not> en_tries \<lparr>en_job = 0, en_tries = 2\<rparr> < jq_maxRetries lastTryQueue
   \<and> \<lparr>en_job = 0, en_tries = 2\<rparr> \<in> set (jq_listening lastTryQueue)
   \<and> mset (jq_q (onError \<lparr>en_job = 0, en_tries = 2\<rparr> lastTryQueue))
       + mset (jq_listening (onError \<lparr>en_job = 0, en_tries = 2\<rparr> lastTryQueue)) = {#}"
proof -
  let ?f = "qRun failThrice (newJobQueue sampleHeap None (Some 2) None)"
  have d: "dropped 0 ?f" by (simp add: dropped_def failThrice_run)
  have s: "startsOf 0 ?f = 3" by (simp add: startsOf_def failThrice_run)
  show ?thesis
    using retry_three_starts_then_dropped
            [of failThrice 0 sampleHeap None None "\<lparr>en_job = 0, en_tries = 0\<rparr>" pausedQueue "[]"]
          retry_three_starts_then_dropped
            [of failThrice 0 sampleHeap None None "\<lparr>en_job = 0, en_tries = 1\<rparr>" sleepingQueue "[]"]
          retry_three_starts_then_dropped
            [of failThrice 0 sampleHeap None None "\<lparr>en_job = 0, en_tries = 2\<rparr>" lastTryQueue "[]"]
          failThrice_facts failThrice_run d s pausedQueue_facts sleepingQueue_facts
          lastTryQueue_facts
    by simp
qed

end
